theory Spec2Isabelle
  imports Complex_Main
begin

section \<open>The one-shot voice controller of giallarhorn (OneShotAudio.js)\<close>

text \<open>
  The development embeds the static class \<^verbatim>\<open>OneShotAudio\<close>: \<^verbatim>\<open>init\<close>, \<^verbatim>\<open>getPolicy\<close>,
  \<^verbatim>\<open>getActiveCount\<close>, \<^verbatim>\<open>play\<close> and \<^verbatim>\<open>_ensureCapacity\<close>, together with the parts of
  \<^verbatim>\<open>AudioItem\<close> they call (\<^verbatim>\<open>play\<close>, \<^verbatim>\<open>stop\<close>, \<^verbatim>\<open>disconnect\<close>, the \<^verbatim>\<open>volume\<close> accessors).

  Conventions.
  \<^item> A JavaScript number is a \<^typ>\<open>real\<close>: arithmetic is exact, and \<^verbatim>\<open>NaN\<close> and the infinities
    are not numbers of the model. The one infinity the code writes, \<^verbatim>\<open>-Infinity\<close> for a track
    that was never played and \<^verbatim>\<open>Infinity\<close> for the starting minimum score, is \<open>None\<close>.
  \<^item> An optional property of an object literal has three states, which the object spread of
    \<^verbatim>\<open>init\<close> tells apart: the key is absent, the key is there with the value \<^verbatim>\<open>undefined\<close>,
    or it holds a value. Once an object is built, a property read gives \<open>None\<close> for
    \<^verbatim>\<open>undefined\<close> and \<open>Some v\<close> for a value.
  \<^item> Objects compared by identity live in a store. A \<^verbatim>\<open>Set\<close> is an address into
    \<open>setStore\<close>, whose entry lists the members in insertion order (the iteration order of a
    JavaScript \<^verbatim>\<open>Set\<close>); a playback node is an address into \<open>nodeStore\<close>. Addresses are
    handed out in increasing order by \<open>nextSet\<close> and \<open>nextNode\<close>.
  \<^item> The clock \<^verbatim>\<open>context.currentTime\<close> is an argument \<open>now\<close> of each call: it does not
    advance inside one synchronous call.
\<close>

subsection \<open>Policies and options\<close>

datatype 'a field = Absent | Undefined | Defined 'a

text \<open>\<^verbatim>\<open>p.k ?? d\<close>: the property when it holds a value, else \<open>d\<close>.\<close>

fun coalesce :: "'a field \<Rightarrow> 'a option \<Rightarrow> 'a option" where
  "coalesce (Defined v) d = Some v"
| "coalesce Absent d = d"
| "coalesce Undefined d = d"

text \<open>\<^verbatim>\<open>{k: dflt, ...src}.k\<close>: a key of \<open>src\<close> overwrites the literal's, whatever it holds.\<close>

fun spread :: "'a \<Rightarrow> 'a field \<Rightarrow> 'a option" where
  "spread dflt Absent = Some dflt"
| "spread dflt Undefined = None"
| "spread dflt (Defined v) = Some v"

text \<open>\<^verbatim>\<open>x ?? 0\<close> on a property that was read.\<close>

fun orZero :: "real option \<Rightarrow> real" where
  "orZero None = 0"
| "orZero (Some x) = x"

text \<open>
  \<^verbatim>\<open>OneShotPolicy\<close> as a caller writes it (types/common.d.ts: every field optional). The
  field \<^verbatim>\<open>spatialDefaults\<close> and the spatial, playback-rate and detune options are forwarded
  to the playback node and never read by the admission logic; they are left out.
\<close>

record partialPolicy =
  pp_maxVoices :: "real field"
  pp_minInterval :: "real field"
  pp_priority :: "real field"
  pp_stealStrategy :: "string field"
  pp_stealFadeMs :: "real field"

definition noPolicy :: partialPolicy where
  "noPolicy = \<lparr> pp_maxVoices = Absent, pp_minInterval = Absent, pp_priority = Absent,
                 pp_stealStrategy = Absent, pp_stealFadeMs = Absent \<rparr>"

text \<open>A policy object once built (\<^verbatim>\<open>global.defaultPolicy\<close>, the result of \<^verbatim>\<open>getPolicy\<close>).\<close>

record policy =
  maxVoices :: "real option"
  minInterval :: "real option"
  priority :: "real option"
  stealStrategy :: "string option"
  stealFadeMs :: "real option"

record options =
  o_volume :: "real option"
  o_priority :: "real option"
  o_minIntervalOverride :: "real option"
  o_duration :: "real option"
  o_spatial :: bool

record initConfig =
  cfg_buffers :: "string \<Rightarrow> bool"
  cfg_maxGlobalVoices :: "real option"
  cfg_defaultPolicy :: partialPolicy
  cfg_tracks :: "string \<Rightarrow> partialPolicy option"

subsection \<open>Voices, nodes and the registry\<close>

text \<open>The voice object \<^verbatim>\<open>{ name, node, priority }\<close>; \<open>v_node\<close> is the node's address.\<close>

record voice =
  v_name :: string
  v_node :: nat
  v_priority :: "real option"

text \<open>
  The handler in \<^verbatim>\<open>source.onended\<close>. \<open>HandleEnd v a\<close> is the closure \<^verbatim>\<open>handleEnd\<close> of
  \<^verbatim>\<open>play\<close> with the variables it captured: the voice and the \<^verbatim>\<open>trackSet\<close> object.
\<close>

datatype handler = NoHandler | HandleEnd voice nat

record node =
  isSpatial :: bool
  gainValue :: real
  gainTarget :: "(real \<times> real) option"
  gainRamp :: "(real \<times> real \<times> real) option"
  isPlaying :: bool
  startedAt :: real
  stopTime :: "real option"
  onended :: handler
  isConnected :: bool

text \<open>
  \<open>gainValue\<close> is what \<^verbatim>\<open>gain.gain.value\<close> reads. \<open>gainTarget = Some (v, t)\<close> records
  \<^verbatim>\<open>setTargetAtTime(v, t, 0.01)\<close>; \<open>gainRamp = Some (v0, t, e)\<close> records
  \<^verbatim>\<open>setValueAtTime(v0, t)\<close> followed by \<^verbatim>\<open>linearRampToValueAtTime(0, e)\<close>; \<open>stopTime\<close> is the
  argument of \<^verbatim>\<open>source.stop\<close>.
\<close>

definition blankNode :: node where
  "blankNode = \<lparr> isSpatial = False, gainValue = 1, gainTarget = None, gainRamp = None,
                  isPlaying = False, startedAt = 0, stopTime = None, onended = NoHandler,
                  isConnected = False \<rparr>"

record state =
  maxGlobalVoices :: real
  defaultPolicy :: policy
  trackPolicies :: "string \<Rightarrow> partialPolicy option"
  buffers :: "string \<Rightarrow> bool"
  active :: "voice list"
  activeByTrack :: "string \<Rightarrow> nat option"
  lastStartAt :: "string \<Rightarrow> real option"
  setStore :: "nat \<Rightarrow> voice list"
  nextSet :: nat
  nodeStore :: "nat \<Rightarrow> node"
  nextNode :: nat

text \<open>\<^verbatim>\<open>Set.prototype.add\<close> and \<^verbatim>\<open>Set.prototype.delete\<close> on the member list.\<close>

definition setAdd :: "'a \<Rightarrow> 'a list \<Rightarrow> 'a list" where
  "setAdd x xs = (if x \<in> set xs then xs else xs @ [x])"

definition setDelete :: "'a \<Rightarrow> 'a list \<Rightarrow> 'a list" where
  "setDelete x xs = removeAll x xs"

subsection \<open>init, getPolicy, getActiveCount\<close>

text \<open>
  \<^verbatim>\<open>init\<close> replaces the configuration and the registry. The objects of an earlier run stay
  in the store (their nodes keep playing and keep their handlers), so the earlier state is
  an argument: \<open>None\<close> for the first call.
\<close>

definition init :: "initConfig \<Rightarrow> state option \<Rightarrow> state" where
  "init cfg prev =
     \<lparr> maxGlobalVoices = (case cfg_maxGlobalVoices cfg of Some m \<Rightarrow> m | None \<Rightarrow> 32),
       defaultPolicy =
         \<lparr> maxVoices = spread 8 (pp_maxVoices (cfg_defaultPolicy cfg)),
           minInterval = spread (2 / 100) (pp_minInterval (cfg_defaultPolicy cfg)),
           priority = spread 0 (pp_priority (cfg_defaultPolicy cfg)),
           stealStrategy = spread ''ignore'' (pp_stealStrategy (cfg_defaultPolicy cfg)),
           stealFadeMs = spread 120 (pp_stealFadeMs (cfg_defaultPolicy cfg)) \<rparr>,
       trackPolicies = cfg_tracks cfg,
       buffers = cfg_buffers cfg,
       active = [],
       activeByTrack = (\<lambda>_. None),
       lastStartAt = (\<lambda>_. None),
       setStore = (case prev of None \<Rightarrow> (\<lambda>_. []) | Some s \<Rightarrow> setStore s),
       nextSet = (case prev of None \<Rightarrow> 0 | Some s \<Rightarrow> nextSet s),
       nodeStore = (case prev of None \<Rightarrow> (\<lambda>_. blankNode) | Some s \<Rightarrow> nodeStore s),
       nextNode = (case prev of None \<Rightarrow> 0 | Some s \<Rightarrow> nextNode s) \<rparr>"

definition getPolicy :: "state \<Rightarrow> string \<Rightarrow> policy" where
  "getPolicy s name =
     (let p = (case trackPolicies s name of Some q \<Rightarrow> q | None \<Rightarrow> noPolicy);
          d = defaultPolicy s
      in \<lparr> maxVoices = coalesce (pp_maxVoices p) (maxVoices d),
           minInterval = coalesce (pp_minInterval p) (minInterval d),
           priority = coalesce (pp_priority p) (priority d),
           stealStrategy = coalesce (pp_stealStrategy p) (stealStrategy d),
           stealFadeMs =
             Some (case coalesce (pp_stealFadeMs p) (stealFadeMs d) of
                     Some f \<Rightarrow> f | None \<Rightarrow> 120) \<rparr>)"

text \<open>The members of the set registered for a track: \<^verbatim>\<open>activeByTrack.get(name) || new Set()\<close>.\<close>

definition trackVoices :: "state \<Rightarrow> string \<Rightarrow> voice list" where
  "trackVoices s name = (case activeByTrack s name of Some a \<Rightarrow> setStore s a | None \<Rightarrow> [])"

text \<open>The argument is \<open>None\<close> when the caller passes none; the empty string is falsy too.\<close>

definition getActiveCount :: "state \<Rightarrow> string option \<Rightarrow> nat" where
  "getActiveCount s name =
     (case name of
        None \<Rightarrow> length (active s)
      | Some n \<Rightarrow> if n = [] then length (active s) else length (trackVoices s n))"

subsection \<open>Capacity and stealing: \<^verbatim>\<open>_ensureCapacity\<close>\<close>

text \<open>
  The score of the \<^verbatim>\<open>stealQuietest\<close> scan,
  \<^verbatim>\<open>(v.priority ?? 0) * -1000 + (v.node.volume ?? 1)\<close>. The getter \<^verbatim>\<open>volume\<close> of
  \<^verbatim>\<open>AudioItem\<close> returns \<^verbatim>\<open>gain.gain.value\<close>, a number, so \<^verbatim>\<open>?? 1\<close> never applies.
\<close>

definition volumeOf :: "state \<Rightarrow> voice \<Rightarrow> real" where
  "volumeOf s v = gainValue (nodeStore s (v_node v))"

definition score :: "state \<Rightarrow> voice \<Rightarrow> real" where
  "score s v = orZero (v_priority v) * (- 1000) + volumeOf s v"

text \<open>
  The loop \<^verbatim>\<open>for (const v of this.active)\<close> with its two variables: \<open>minScore\<close> (\<open>None\<close> is
  \<^verbatim>\<open>Infinity\<close>) and \<open>victim\<close> (\<open>None\<close> is \<^verbatim>\<open>null\<close>).
\<close>

fun quietest :: "(voice \<Rightarrow> real) \<Rightarrow> voice list \<Rightarrow> real option \<Rightarrow> voice option \<Rightarrow> voice option" where
  "quietest sc [] minScore victim = victim"
| "quietest sc (v # vs) minScore victim =
     (if (case minScore of None \<Rightarrow> True | Some m \<Rightarrow> sc v < m)
      then quietest sc vs (Some (sc v)) (Some v)
      else quietest sc vs minScore victim)"

text \<open>\<^verbatim>\<open>set.values().next().value\<close>: the first member in insertion order, if any.\<close>

fun firstValue :: "'a list \<Rightarrow> 'a option" where
  "firstValue [] = None"
| "firstValue (x # xs) = Some x"

definition pickVictim :: "state \<Rightarrow> string option \<Rightarrow> voice list \<Rightarrow> voice option" where
  "pickVictim s strategy trackSet =
     (if strategy = Some ''stealOldest'' then
        (case firstValue trackSet of Some v \<Rightarrow> Some v | None \<Rightarrow> firstValue (active s))
      else if strategy = Some ''stealQuietest'' then quietest (score s) (active s) None None
      else None)"

text \<open>
  The eviction, lines 363 to 396 of \<^verbatim>\<open>_ensureCapacity\<close>, at clock reading \<open>t\<close>.
  \<^verbatim>\<open>policy.stealFadeMs || 0\<close> is 0 for \<^verbatim>\<open>undefined\<close> and for 0.
  \<^verbatim>\<open>cancelScheduledValues(t)\<close> drops the automation events scheduled at \<open>t\<close> or later.
  The handler \<^verbatim>\<open>cleanup\<close> is stored in \<^verbatim>\<open>source.onended\<close> and \<^verbatim>\<open>AudioItem.stop\<close>, called
  next, stops the source at \<^verbatim>\<open>currentTime + delay\<close> and resets \<^verbatim>\<open>source.onended\<close> to
  \<^verbatim>\<open>null\<close>: the handler left behind is \<open>NoHandler\<close>. Faults of the platform (the
  \<^verbatim>\<open>catch\<close> branches) are not modelled.
\<close>

definition evict :: "state \<Rightarrow> real \<Rightarrow> policy \<Rightarrow> voice \<Rightarrow> state" where
  "evict s t pol victim =
     (let fadeMs = max 0 (orZero (stealFadeMs pol));
          stopAt = t + fadeMs / 1000;
          i = v_node victim;
          n0 = nodeStore s i;
          n1 = n0 \<lparr> gainTarget := (case gainTarget n0 of
                                     Some (v, t0) \<Rightarrow> if t \<le> t0 then None else Some (v, t0)
                                   | None \<Rightarrow> None),
                    gainRamp := Some (gainValue n0, t, stopAt) \<rparr>;
          n2 = n1 \<lparr> stopTime := Some (t + (if stopAt - t > 0 then stopAt - t else 0)),
                    onended := NoHandler,
                    isPlaying := False \<rparr>;
          vs = (case activeByTrack s (v_name victim) of
                  Some a \<Rightarrow> setDelete victim (setStore s a) | None \<Rightarrow> [])
      in s \<lparr> active := setDelete victim (active s),
             setStore := (case activeByTrack s (v_name victim) of
                            Some a \<Rightarrow> (setStore s)(a := vs) | None \<Rightarrow> setStore s),
             activeByTrack := (case activeByTrack s (v_name victim) of
                                 Some a \<Rightarrow> if vs = [] then (activeByTrack s)(v_name victim := None)
                                           else activeByTrack s
                               | None \<Rightarrow> activeByTrack s),
             nodeStore := (nodeStore s)(i := n2) \<rparr>)"

text \<open>
  \<open>trackSet\<close> is read (its size, its first member) before anything is written, so the
  members are passed by value. A comparison with \<^verbatim>\<open>undefined\<close> is false.
\<close>

definition ensureCapacity :: "state \<Rightarrow> real \<Rightarrow> policy \<Rightarrow> voice list \<Rightarrow> real option \<Rightarrow> bool \<times> state" where
  "ensureCapacity s now pol trackSet newPriority =
     (let globalFull = (maxGlobalVoices s \<le> real (length (active s)));
          trackFull = (case maxVoices pol of Some m \<Rightarrow> m \<le> real (length trackSet) | None \<Rightarrow> False)
      in if \<not> globalFull \<and> \<not> trackFull then (True, s)
         else if stealStrategy pol = Some ''ignore'' then (False, s)
         else (case pickVictim s (stealStrategy pol) trackSet of
                 None \<Rightarrow> (False, s)
               | Some victim \<Rightarrow>
                   if orZero (v_priority victim) > orZero newPriority then (False, s)
                   else (True, evict s now pol victim)))"

text \<open>
  The calls that get as far as \<^verbatim>\<open>pickVictim\<close>: a limit is reached and the strategy is not
  \<^verbatim>\<open>'ignore'\<close> (lines 336 to 341).
\<close>

definition reachesSelection :: "state \<Rightarrow> policy \<Rightarrow> voice list \<Rightarrow> bool" where
  "reachesSelection s pol trackSet =
     ((maxGlobalVoices s \<le> real (length (active s))
       \<or> (case maxVoices pol of Some m \<Rightarrow> m \<le> real (length trackSet) | None \<Rightarrow> False))
      \<and> stealStrategy pol \<noteq> Some ''ignore'')"

subsection \<open>play\<close>

text \<open>
  Lines 252 to 313 of \<^verbatim>\<open>play\<close>, after the gates: the node is created (a gain node starts
  at value 1; the \<^verbatim>\<open>volume\<close> setter only schedules \<^verbatim>\<open>setTargetAtTime\<close>), started and
  connected, \<^verbatim>\<open>lastStartAt\<close> is written, the voice is added to both sets and the handler
  \<^verbatim>\<open>handleEnd\<close> is installed. \<open>trackRef\<close> is the set object \<^verbatim>\<open>play\<close> looked up before the
  capacity check; when there was none, the \<^verbatim>\<open>new Set()\<close> gets its address here.
\<close>

definition register :: "state \<Rightarrow> real \<Rightarrow> string \<Rightarrow> options \<Rightarrow> nat option \<Rightarrow> real option \<Rightarrow> voice \<times> state" where
  "register s now name opts trackRef newPriority =
     (let i = nextNode s;
          v = \<lparr> v_name = name, v_node = i, v_priority = newPriority \<rparr>;
          a = (case trackRef of Some b \<Rightarrow> b | None \<Rightarrow> nextSet s);
          members = (case trackRef of Some b \<Rightarrow> setStore s b | None \<Rightarrow> []);
          n = \<lparr> isSpatial = o_spatial opts,
                gainValue = 1,
                gainTarget = (case o_volume opts of Some x \<Rightarrow> Some (x, now) | None \<Rightarrow> None),
                gainRamp = None,
                isPlaying = True,
                startedAt = now,
                stopTime = (case o_duration opts of Some d \<Rightarrow> Some (now + max 0 d) | None \<Rightarrow> None),
                onended = HandleEnd v a,
                isConnected = True \<rparr>
      in (v, s \<lparr> lastStartAt := (lastStartAt s)(name := Some now),
                 active := setAdd v (active s),
                 setStore := (setStore s)(a := setAdd v members),
                 activeByTrack := (activeByTrack s)(name := Some a),
                 nextSet := (case trackRef of Some b \<Rightarrow> nextSet s | None \<Rightarrow> Suc (nextSet s)),
                 nodeStore := (nodeStore s)(i := n),
                 nextNode := Suc i \<rparr>))"

text \<open>The rate limiter: \<^verbatim>\<open>now - last < minInt\<close>, false when either side is not a number.\<close>

definition effectiveMinInterval :: "state \<Rightarrow> string \<Rightarrow> options \<Rightarrow> real option" where
  "effectiveMinInterval s name opts =
     (case o_minIntervalOverride opts of
        Some m \<Rightarrow> Some m | None \<Rightarrow> minInterval (getPolicy s name))"

definition rateLimited :: "state \<Rightarrow> real \<Rightarrow> string \<Rightarrow> options \<Rightarrow> bool" where
  "rateLimited s now name opts =
     (case (lastStartAt s name, effectiveMinInterval s name opts) of
        (Some l, Some m) \<Rightarrow> now - l < m
      | _ \<Rightarrow> False)"

text \<open>\<^verbatim>\<open>options.priority ?? policy.priority\<close>.\<close>

definition resolvedPriority :: "state \<Rightarrow> string \<Rightarrow> options \<Rightarrow> real option" where
  "resolvedPriority s name opts =
     (case o_priority opts of Some p \<Rightarrow> Some p | None \<Rightarrow> priority (getPolicy s name))"

definition play :: "state \<Rightarrow> real \<Rightarrow> string \<Rightarrow> options \<Rightarrow> voice option \<times> state" where
  "play s now name opts =
     (if \<not> buffers s name then (None, s)
      else if rateLimited s now name opts then (None, s)
      else (case ensureCapacity s now (getPolicy s name) (trackVoices s name)
                   (resolvedPriority s name opts) of
              (False, s1) \<Rightarrow> (None, s1)
            | (True, s1) \<Rightarrow>
                (case register s1 now name opts (activeByTrack s name)
                        (resolvedPriority s name opts) of
                   (v, s2) \<Rightarrow> (Some v, s2))))"

subsection \<open>Events of the platform\<close>

text \<open>
  The closure \<^verbatim>\<open>handleEnd\<close>: it removes the voice from \<^verbatim>\<open>this.active\<close> and from the set
  object it captured, and deletes the entry of the track's name from \<^verbatim>\<open>activeByTrack\<close> when
  that object is left empty.
\<close>

definition handleEnd :: "state \<Rightarrow> voice \<Rightarrow> nat \<Rightarrow> state" where
  "handleEnd s v a =
     (let ts = setDelete v (setStore s a)
      in s \<lparr> nodeStore := (nodeStore s)
                 (v_node v := (nodeStore s (v_node v)) \<lparr> isConnected := False, onended := NoHandler \<rparr>),
             active := setDelete v (active s),
             setStore := (setStore s)(a := ts),
             activeByTrack := (if ts = [] then (activeByTrack s)(v_name v := None)
                               else activeByTrack s) \<rparr>)"

text \<open>The platform fires \<^verbatim>\<open>ended\<close> on the source of node \<open>i\<close> and calls its handler.\<close>

definition sourceEnded :: "state \<Rightarrow> nat \<Rightarrow> state" where
  "sourceEnded s i =
     (case onended (nodeStore s i) of
        NoHandler \<Rightarrow> s
      | HandleEnd v a \<Rightarrow> handleEnd s v a)"

text \<open>The automation of the platform moves the gain of node \<open>i\<close> to \<open>x\<close>.\<close>

definition gainAutomation :: "state \<Rightarrow> nat \<Rightarrow> real \<Rightarrow> state" where
  "gainAutomation s i x = s \<lparr> nodeStore := (nodeStore s)(i := (nodeStore s i) \<lparr> gainValue := x \<rparr>) \<rparr>"

text \<open>\<^verbatim>\<open>AudioManager.loadAll\<close> stores one more buffer.\<close>

definition loadBuffer :: "state \<Rightarrow> string \<Rightarrow> state" where
  "loadBuffer s name = s \<lparr> buffers := (buffers s)(name := True) \<rparr>"

subsection \<open>Executions\<close>

text \<open>
  The states of an execution: the first \<^verbatim>\<open>init\<close>, then calls of \<^verbatim>\<open>play\<close>, events of the
  platform, and further calls of \<^verbatim>\<open>init\<close>.
\<close>

inductive reachable :: "state \<Rightarrow> bool" where
  r_init: "reachable (init cfg None)"
| r_reinit: "reachable s \<Longrightarrow> reachable (init cfg (Some s))"
| r_play: "reachable s \<Longrightarrow> reachable (snd (play s now name opts))"
| r_ended: "reachable s \<Longrightarrow> reachable (sourceEnded s i)"
| r_gain: "reachable s \<Longrightarrow> reachable (gainAutomation s i x)"
| r_load: "reachable s \<Longrightarrow> reachable (loadBuffer s name)"

text \<open>
  The executions in which \<^verbatim>\<open>init\<close> is run again only while no voice is active, so that
  no handler of an earlier registry is left behind.
\<close>

inductive reachableTracked :: "state \<Rightarrow> bool" where
  t_init: "reachableTracked (init cfg None)"
| t_reinit: "reachableTracked s \<Longrightarrow> active s = [] \<Longrightarrow> reachableTracked (init cfg (Some s))"
| t_play: "reachableTracked s \<Longrightarrow> reachableTracked (snd (play s now name opts))"
| t_ended: "reachableTracked s \<Longrightarrow> reachableTracked (sourceEnded s i)"
| t_gain: "reachableTracked s \<Longrightarrow> reachableTracked (gainAutomation s i x)"
| t_load: "reachableTracked s \<Longrightarrow> reachableTracked (loadBuffer s name)"


subsection \<open>Invariants of the registry\<close>

text \<open>
  Node addresses are handed out in the order of admission, so \<open>v_node\<close> orders the voices by
  the time they were admitted. \<open>ordered\<close>: the global set and every set object list their
  members by increasing admission, all of them admitted before the next node address.
\<close>

definition ordered :: "state \<Rightarrow> bool" where
  "ordered s =
     (sorted_wrt (\<lambda>x y. v_node x < v_node y) (active s)
      \<and> (\<forall>v \<in> set (active s). v_node v < nextNode s)
      \<and> (\<forall>a. sorted_wrt (\<lambda>x y. v_node x < v_node y) (setStore s a))
      \<and> (\<forall>a. \<forall>v \<in> set (setStore s a). v_node v < nextNode s))"

text \<open>
  \<open>consistent\<close>: every registered set is non-empty and holds the active voices of its
  track; every active voice has its track registered, and the handler on its node is the
  closure over that voice and that very set object; no other node carries such a handler.
\<close>

definition consistent :: "state \<Rightarrow> bool" where
  "consistent s =
     (distinct (active s)
      \<and> (\<forall>n a. activeByTrack s n = Some a \<longrightarrow>
             setStore s a \<noteq> [] \<and> distinct (setStore s a) \<and> a < nextSet s
             \<and> (\<forall>w. (w \<in> set (setStore s a)) = (w \<in> set (active s) \<and> v_name w = n)))
      \<and> (\<forall>v \<in> set (active s). v_node v < nextNode s
             \<and> (\<exists>a. activeByTrack s (v_name v) = Some a
                     \<and> onended (nodeStore s (v_node v)) = HandleEnd v a))
      \<and> (\<forall>i v a. onended (nodeStore s i) = HandleEnd v a \<longrightarrow> v \<in> set (active s) \<and> v_node v = i))"

text \<open>The sum of the sizes of the per-track sets, over the keys of \<^verbatim>\<open>activeByTrack\<close>.\<close>

definition trackTotal :: "state \<Rightarrow> nat" where
  "trackTotal s = (\<Sum>n \<in> dom (activeByTrack s). length (trackVoices s n))"

text \<open>The same sum as \<^verbatim>\<open>getActiveCount\<close> reports it.\<close>

definition reportedTotal :: "state \<Rightarrow> nat" where
  "reportedTotal s = (\<Sum>n \<in> dom (activeByTrack s). getActiveCount s (Some n))"

subsection \<open>Configurations and states used as examples\<close>

definition plainOptions :: options where
  "plainOptions = \<lparr> o_volume = None, o_priority = None, o_minIntervalOverride = None,
                     o_duration = None, o_spatial = False \<rparr>"

text \<open>
  \<^verbatim>\<open>{ global: { maxGlobalVoices, defaultPolicy: { maxVoices, minInterval: 0, stealStrategy } } }\<close>
  with the buffers \<^verbatim>\<open>a\<close> and \<^verbatim>\<open>b\<close> loaded.
\<close>

definition exConfig :: "string \<Rightarrow> real \<Rightarrow> real \<Rightarrow> initConfig" where
  "exConfig strategy perTrack overall =
     \<lparr> cfg_buffers = (\<lambda>n. n = ''a'' \<or> n = ''b''),
       cfg_maxGlobalVoices = Some overall,
       cfg_defaultPolicy = noPolicy \<lparr> pp_maxVoices := Defined perTrack,
                                      pp_minInterval := Defined 0,
                                      pp_stealStrategy := Defined strategy \<rparr>,
       cfg_tracks = (\<lambda>_. None) \<rparr>"

text \<open>One voice of priority 5 fills the only slot; the strategy is \<^verbatim>\<open>stealOldest\<close>.\<close>

definition guarded :: state where
  "guarded = snd (play (init (exConfig ''stealOldest'' 1 1) None) 0 ''a''
                    (plainOptions \<lparr> o_priority := Some 5 \<rparr>))"

text \<open>
  The setting of the end-to-end property of the specification: limits 2 and 2,
  \<^verbatim>\<open>stealOldest\<close>, and two voices of track \<^verbatim>\<open>a\<close> playing.
\<close>

definition crowded :: state where
  "crowded = snd (play (snd (play (init (exConfig ''stealOldest'' 2 2) None) 0 ''a'' plainOptions))
                    0 ''a'' plainOptions)"

text \<open>\<^verbatim>\<open>init({ audioManager })\<close>: every default applies.\<close>

definition defaultConfig :: initConfig where
  "defaultConfig = \<lparr> cfg_buffers = (\<lambda>n. n = ''a'' \<or> n = ''b''), cfg_maxGlobalVoices = None,
                      cfg_defaultPolicy = noPolicy, cfg_tracks = (\<lambda>_. None) \<rparr>"

text \<open>
  Three voices of priorities 2, 2, 1 fill the three slots; the platform has brought their
  gains to 0.9, 0.1 and 1.0. The strategy is \<^verbatim>\<open>stealQuietest\<close>.
\<close>

definition contested :: state where
  "contested =
     gainAutomation
       (gainAutomation
          (snd (play (snd (play (snd (play (init (exConfig ''stealQuietest'' 3 3) None) 0 ''a''
                                        (plainOptions \<lparr> o_priority := Some 2 \<rparr>)))
                            0 ''a'' (plainOptions \<lparr> o_priority := Some 2 \<rparr>)))
                  0 ''a'' (plainOptions \<lparr> o_priority := Some 1 \<rparr>)))
          0 (9 / 10))
       1 (1 / 10)"

text \<open>\<^verbatim>\<open>init({ audioManager, global: { defaultPolicy: { maxVoices: undefined } } })\<close>.\<close>

definition undefinedDefault :: initConfig where
  "undefinedDefault = defaultConfig \<lparr> cfg_defaultPolicy := noPolicy \<lparr> pp_maxVoices := Undefined \<rparr> \<rparr>"

text \<open>
  \<^verbatim>\<open>maxVoices\<close> is 1 and the strategy \<^verbatim>\<open>stealQuietest\<close>: a voice of track \<^verbatim>\<open>b\<close> played at
  volume 0.5, whose gain has settled there, and a voice of track \<^verbatim>\<open>a\<close> at gain 1.
\<close>

definition shared :: state where
  "shared = snd (play (gainAutomation
                         (snd (play (init (exConfig ''stealQuietest'' 1 32) None) 0 ''b''
                                 (plainOptions \<lparr> o_volume := Some (1 / 2) \<rparr>)))
                         0 (1 / 2))
                   0 ''a'' plainOptions)"

text \<open>
  \<^verbatim>\<open>init\<close>, \<^verbatim>\<open>play('a')\<close>, \<^verbatim>\<open>init\<close> again, \<^verbatim>\<open>play('a')\<close>, and then the voice admitted
  before the second \<^verbatim>\<open>init\<close> ends.
\<close>

definition stale :: state where
  "stale = sourceEnded
             (snd (play (init defaultConfig
                           (Some (snd (play (init defaultConfig None) 0 ''a'' plainOptions))))
                     0 ''a'' plainOptions))
             0"

text \<open>
  \<^verbatim>\<open>init({ audioManager, tracks: { a: { minInterval: 1 } } })\<close>: track \<^verbatim>\<open>a\<close> has its own
  interval, track \<^verbatim>\<open>b\<close> the default of 0.02.
\<close>

definition pacedConfig :: initConfig where
  "pacedConfig = defaultConfig
     \<lparr> cfg_tracks := (\<lambda>n. if n = ''a'' then Some (noPolicy \<lparr> pp_minInterval := Defined 1 \<rparr>)
                           else None) \<rparr>"

text \<open>
  Limit 1 and the strategy \<^verbatim>\<open>ignore\<close>: \<^verbatim>\<open>init\<close>, \<^verbatim>\<open>play('a')\<close>, \<^verbatim>\<open>init\<close> again,
  \<^verbatim>\<open>play('a')\<close>, the voice admitted before the second \<^verbatim>\<open>init\<close> ends, and \<^verbatim>\<open>play('a')\<close>
  once more.
\<close>

definition bypassed :: state where
  "bypassed = snd (play (sourceEnded
                           (snd (play (init (exConfig ''ignore'' 1 32)
                                         (Some (snd (play (init (exConfig ''ignore'' 1 32) None)
                                                       0 ''a'' plainOptions))))
                                   0 ''a'' plainOptions))
                           0)
                     1 ''a'' plainOptions)"

text \<open>
  A buffer loaded from a file such as \<^verbatim>\<open>.mp3\<close> is stored under the empty name; one voice of
  that track and one of track \<^verbatim>\<open>a\<close> are playing.
\<close>

definition unnamed :: state where
  "unnamed = snd (play (snd (play (init (defaultConfig \<lparr> cfg_buffers := (\<lambda>n. n = [] \<or> n = ''a'') \<rparr>)
                                      None)
                                0 [] plainOptions))
                    0 ''a'' plainOptions)"

section \<open>Properties\<close>

lemmas unfold_all =
  play_def register_def ensureCapacity_def evict_def getPolicy_def init_def rateLimited_def
  resolvedPriority_def trackVoices_def pickVictim_def score_def volumeOf_def setAdd_def setDelete_def
  noPolicy_def plainOptions_def exConfig_def Let_def blankNode_def gainAutomation_def
  handleEnd_def sourceEnded_def effectiveMinInterval_def reachesSelection_def

lemmas example_defs = crowded_def defaultConfig_def contested_def undefinedDefault_def shared_def
  stale_def bypassed_def unnamed_def

subsection \<open>The outcomes of the capacity check\<close>

lemma ensureCapacity_False:
  "\<not> fst (ensureCapacity s now pol ts pr) \<Longrightarrow> snd (ensureCapacity s now pol ts pr) = s"
  by (auto simp: ensureCapacity_def Let_def split: option.splits if_splits)

lemma ensureCapacity_guard:
  assumes "reachesSelection s pol ts" and "pickVictim s (stealStrategy pol) ts = Some victim"
    and "orZero (v_priority victim) > orZero pr"
  shows "ensureCapacity s now pol ts pr = (False, s)"
  using assms by (auto simp: ensureCapacity_def reachesSelection_def Let_def)

lemma ensureCapacity_steal:
  assumes "reachesSelection s pol ts" and "pickVictim s (stealStrategy pol) ts = Some victim"
    and "\<not> orZero (v_priority victim) > orZero pr"
  shows "ensureCapacity s now pol ts pr = (True, evict s now pol victim)"
  using assms by (auto simp: ensureCapacity_def reachesSelection_def Let_def)

lemma ensureCapacity_cases:
  "ensureCapacity s now pol ts pr = (True, s)
   \<or> ensureCapacity s now pol ts pr = (False, s)
   \<or> (\<exists>victim. reachesSelection s pol ts \<and> pickVictim s (stealStrategy pol) ts = Some victim
         \<and> \<not> orZero (v_priority victim) > orZero pr
         \<and> ensureCapacity s now pol ts pr = (True, evict s now pol victim))"
  by (auto simp: ensureCapacity_def reachesSelection_def Let_def split: option.splits)

lemma active_evict: "active (evict s t pol victim) = setDelete victim (active s)"
  by (simp add: evict_def Let_def)

lemma active_register:
  "active (snd (register s now name opts r p)) = setAdd (fst (register s now name opts r p)) (active s)"
  by (simp add: register_def Let_def)

lemma guarded_active: "active guarded = [\<lparr> v_name = ''a'', v_node = 0, v_priority = Some 5 \<rparr>]"
  by (simp add: guarded_def unfold_all)

lemma guarded_track: "trackVoices guarded ''a'' = [\<lparr> v_name = ''a'', v_node = 0, v_priority = Some 5 \<rparr>]"
  by (simp add: guarded_def unfold_all)

lemma guarded_policy:
  "getPolicy guarded ''a'' = \<lparr> maxVoices = Some 1, minInterval = Some 0, priority = Some 0,
     stealStrategy = Some ''stealOldest'', stealFadeMs = Some 120 \<rparr>"
  by (simp add: guarded_def unfold_all)

lemma guarded_limit: "maxGlobalVoices guarded = 1"
  by (simp add: guarded_def unfold_all)

lemma guarded_selection:
  "reachesSelection guarded (getPolicy guarded ''a'') (trackVoices guarded ''a'')"
  by (simp add: reachesSelection_def guarded_active guarded_track guarded_policy guarded_limit)

lemma guarded_pick:
  "pickVictim guarded (stealStrategy (getPolicy guarded ''a'')) (trackVoices guarded ''a'')
     = Some \<lparr> v_name = ''a'', v_node = 0, v_priority = Some 5 \<rparr>"
  by (simp add: pickVictim_def guarded_track guarded_policy)

subsection \<open>Rejections\<close>

text \<open>
  C7. Whenever \<^verbatim>\<open>play\<close> returns \<^verbatim>\<open>null\<close> the state after the call is the state before it:
  the global set, every per-track set, \<^verbatim>\<open>lastStartAt\<close> and the stores of sets and nodes are
  unchanged, so no node was created or started. Each of the three rejections (the track has
  no buffer, the rate limiter fires, the capacity check fails) is the ordinary result
  \<open>(None, s)\<close> of the function; \<open>play\<close> has no other kind of result.
\<close>

theorem play_null_leaves_state:
  "(fst (play s now name opts) = None \<longrightarrow> snd (play s now name opts) = s)
   \<and> (\<not> buffers s name \<longrightarrow> play s now name opts = (None, s))
   \<and> (rateLimited s now name opts \<longrightarrow> play s now name opts = (None, s))
   \<and> (\<not> fst (ensureCapacity s now (getPolicy s name) (trackVoices s name)
                (resolvedPriority s name opts)) \<longrightarrow> play s now name opts = (None, s))"
proof -
  let ?e = "ensureCapacity s now (getPolicy s name) (trackVoices s name) (resolvedPriority s name opts)"
  have e: "\<not> fst ?e \<Longrightarrow> snd ?e = s"
    by (rule ensureCapacity_False)
  have 1: "fst (play s now name opts) = None \<longrightarrow> snd (play s now name opts) = s"
    using e by (cases ?e) (auto simp: play_def split_def split: if_splits bool.splits)
  have 4: "\<not> fst ?e \<longrightarrow> play s now name opts = (None, s)"
    using e by (cases ?e) (auto simp: play_def)
  show ?thesis using 1 4 by (simp add: play_def)
qed

theorem play_null_leaves_state_witness:
  "fst (play guarded 0 ''zz'' plainOptions) = None
   \<and> snd (play guarded 0 ''zz'' plainOptions) = guarded
   \<and> play guarded 0 ''a'' (plainOptions \<lparr> o_minIntervalOverride := Some 1 \<rparr>) = (None, guarded)
   \<and> play guarded 1 ''a'' plainOptions = (None, guarded)"
proof -
  have b: "\<not> buffers guarded ''zz''"
    by (simp add: guarded_def unfold_all)
  have r: "rateLimited guarded 0 ''a'' (plainOptions \<lparr> o_minIntervalOverride := Some 1 \<rparr>)"
    by (simp add: guarded_def unfold_all)
  have "resolvedPriority guarded ''a'' plainOptions = Some 0"
    by (simp add: resolvedPriority_def guarded_policy plainOptions_def)
  then have c: "\<not> fst (ensureCapacity guarded 1 (getPolicy guarded ''a'') (trackVoices guarded ''a'')
                   (resolvedPriority guarded ''a'' plainOptions))"
    using ensureCapacity_guard[OF guarded_selection guarded_pick, of "Some 0" 1] by simp
  show ?thesis
    using play_null_leaves_state[of guarded 0 "''zz''" plainOptions]
      play_null_leaves_state[of guarded 0 "''a''" "plainOptions \<lparr> o_minIntervalOverride := Some 1 \<rparr>"]
      play_null_leaves_state[of guarded 1 "''a''" plainOptions] b r c
    by simp
qed

subsection \<open>The priority guard\<close>

lemma play_keeps_or_guard:
  assumes "v \<in> set (active s)" and "v \<notin> set (active (snd (play s now name opts)))"
  shows "orZero (v_priority v) \<le> orZero (resolvedPriority s name opts)"
proof -
  let ?pol = "getPolicy s name" and ?ts = "trackVoices s name" and ?pr = "resolvedPriority s name opts"
  consider (a) "ensureCapacity s now ?pol ?ts ?pr = (True, s)"
    | (b) "ensureCapacity s now ?pol ?ts ?pr = (False, s)"
    | (c) victim where "pickVictim s (stealStrategy ?pol) ?ts = Some victim"
        "\<not> orZero (v_priority victim) > orZero ?pr"
        "ensureCapacity s now ?pol ?ts ?pr = (True, evict s now ?pol victim)"
    using ensureCapacity_cases[of s now ?pol ?ts ?pr] by blast
  then show ?thesis
  proof cases
    case a
    with assms show ?thesis
      by (auto simp: play_def split_def active_register setAdd_def split: if_splits)
  next
    case b
    with assms show ?thesis
      by (auto simp: play_def split: if_splits)
  next
    case c
    have "v = victim"
      using assms c(3)
      by (auto simp: play_def split_def active_register active_evict setAdd_def setDelete_def
               split: if_splits)
    with c(2) show ?thesis by simp
  qed
qed

text \<open>
  C4. When victim selection (under any strategy that selects) picks a voice whose priority
  is strictly greater than the priority of the request, \<^verbatim>\<open>_ensureCapacity\<close> returns false
  and leaves the state as it was, and \<^verbatim>\<open>play\<close> returns \<^verbatim>\<open>null\<close> with the state unchanged:
  the victim stays in the registry and its node is untouched. Hence a voice that is active
  before a call of \<^verbatim>\<open>play\<close> and no longer active after it has a priority at most the
  priority of the request.
\<close>

theorem never_steals_from_higher_priority:
  "(reachesSelection s pol ts \<and> pickVictim s (stealStrategy pol) ts = Some victim
      \<and> orZero (v_priority victim) > orZero pr
    \<longrightarrow> ensureCapacity s now pol ts pr = (False, s))
   \<and> (reachesSelection s (getPolicy s name) (trackVoices s name)
      \<and> pickVictim s (stealStrategy (getPolicy s name)) (trackVoices s name) = Some victim
      \<and> orZero (v_priority victim) > orZero (resolvedPriority s name opts)
    \<longrightarrow> play s now name opts = (None, s))
   \<and> (v \<in> set (active s) \<and> v \<notin> set (active (snd (play s now name opts)))
    \<longrightarrow> orZero (v_priority v) \<le> orZero (resolvedPriority s name opts))"
proof (intro conjI impI)
  assume "reachesSelection s pol ts \<and> pickVictim s (stealStrategy pol) ts = Some victim
      \<and> orZero (v_priority victim) > orZero pr"
  then show "ensureCapacity s now pol ts pr = (False, s)"
    by (simp add: ensureCapacity_guard)
next
  assume "reachesSelection s (getPolicy s name) (trackVoices s name)
      \<and> pickVictim s (stealStrategy (getPolicy s name)) (trackVoices s name) = Some victim
      \<and> orZero (v_priority victim) > orZero (resolvedPriority s name opts)"
  then have "ensureCapacity s now (getPolicy s name) (trackVoices s name)
               (resolvedPriority s name opts) = (False, s)"
    by (simp add: ensureCapacity_guard)
  then show "play s now name opts = (None, s)"
    by (simp add: play_def)
next
  assume "v \<in> set (active s) \<and> v \<notin> set (active (snd (play s now name opts)))"
  then show "orZero (v_priority v) \<le> orZero (resolvedPriority s name opts)"
    using play_keeps_or_guard by blast
qed

theorem never_steals_from_higher_priority_witness:
  "ensureCapacity guarded 1 (getPolicy guarded ''a'') (trackVoices guarded ''a'') None = (False, guarded)
   \<and> play guarded 1 ''a'' plainOptions = (None, guarded)
   \<and> active guarded = [\<lparr> v_name = ''a'', v_node = 0, v_priority = Some 5 \<rparr>]
   \<and> gainRamp (nodeStore guarded 0) = None"
proof -
  have r: "resolvedPriority guarded ''a'' plainOptions = Some 0"
    by (simp add: resolvedPriority_def guarded_policy plainOptions_def)
  have n: "gainRamp (nodeStore guarded 0) = None"
    by (simp add: guarded_def unfold_all)
  show ?thesis
    using never_steals_from_higher_priority
      [of guarded "getPolicy guarded ''a''" "trackVoices guarded ''a''"
          "\<lparr> v_name = ''a'', v_node = 0, v_priority = Some 5 \<rparr>" None 1 "''a''" plainOptions]
      guarded_selection guarded_pick r guarded_active n
    by simp
qed

subsection \<open>Eviction\<close>

lemma evict_removes:
  "victim \<notin> set (active (evict s t pol victim))"
  "victim \<notin> set (trackVoices (evict s t pol victim) (v_name victim))"
  "activeByTrack s (v_name victim) = Some a \<Longrightarrow> victim \<notin> set (setStore (evict s t pol victim) a)"
  by (auto simp: evict_def Let_def setDelete_def trackVoices_def split: option.splits)

lemma evict_node:
  "gainRamp (nodeStore (evict s t pol victim) (v_node victim))
     = Some (gainValue (nodeStore s (v_node victim)), t, t + max 0 (orZero (stealFadeMs pol)) / 1000)"
  "stopTime (nodeStore (evict s t pol victim) (v_node victim))
     = Some (t + max 0 (orZero (stealFadeMs pol)) / 1000)"
  by (auto simp: evict_def Let_def max_def)

lemma play_after_steal:
  assumes "buffers s name" "\<not> rateLimited s now name opts"
    "reachesSelection s (getPolicy s name) (trackVoices s name)"
    "pickVictim s (stealStrategy (getPolicy s name)) (trackVoices s name) = Some victim"
    "\<not> orZero (v_priority victim) > orZero (resolvedPriority s name opts)"
  shows "snd (play s now name opts) =
    snd (register (evict s now (getPolicy s name) victim) now name opts (activeByTrack s name)
           (resolvedPriority s name opts))"
  using assms ensureCapacity_steal[OF assms(3,4,5), of now]
  by (simp add: play_def split_def)

text \<open>
  C9. When a steal is admitted (a limit is reached, the strategy selects a victim and the
  priority guard lets it pass), \<^verbatim>\<open>_ensureCapacity\<close> returns true with the victim already
  removed from the global set and from the set of its track, and \<^verbatim>\<open>play\<close> registers the
  new voice on that state. The victim's gain is ramped linearly from the value it has to 0,
  from the clock reading \<open>now\<close> to \<open>now + max 0 stealFadeMs / 1000\<close>, and its source is
  stopped at that same time; for a fade time \<open>f \<ge> 0\<close> in milliseconds this is
  \<open>now + f / 1000\<close> seconds.
\<close>

theorem steal_evicts_then_fades:
  assumes "reachesSelection s pol ts"
    and "pickVictim s (stealStrategy pol) ts = Some victim"
    and "\<not> orZero (v_priority victim) > orZero pr"
  shows "ensureCapacity s now pol ts pr = (True, evict s now pol victim)
    \<and> victim \<notin> set (active (evict s now pol victim))
    \<and> victim \<notin> set (trackVoices (evict s now pol victim) (v_name victim))
    \<and> (\<forall>a. activeByTrack s (v_name victim) = Some a
           \<longrightarrow> victim \<notin> set (setStore (evict s now pol victim) a))
    \<and> gainRamp (nodeStore (evict s now pol victim) (v_node victim))
         = Some (gainValue (nodeStore s (v_node victim)), now,
                 now + max 0 (orZero (stealFadeMs pol)) / 1000)
    \<and> stopTime (nodeStore (evict s now pol victim) (v_node victim))
         = Some (now + max 0 (orZero (stealFadeMs pol)) / 1000)
    \<and> (\<forall>f. stealFadeMs pol = Some f \<and> 0 \<le> f
           \<longrightarrow> gainRamp (nodeStore (evict s now pol victim) (v_node victim))
                 = Some (gainValue (nodeStore s (v_node victim)), now, now + f / 1000)
               \<and> stopTime (nodeStore (evict s now pol victim) (v_node victim))
                 = Some (now + f / 1000))
    \<and> (pol = getPolicy s name \<and> ts = trackVoices s name \<and> pr = resolvedPriority s name opts
         \<and> buffers s name \<and> \<not> rateLimited s now name opts
       \<longrightarrow> snd (play s now name opts)
             = snd (register (evict s now pol victim) now name opts (activeByTrack s name) pr))"
proof (intro conjI allI impI)
  show "ensureCapacity s now pol ts pr = (True, evict s now pol victim)"
    by (rule ensureCapacity_steal[OF assms])
  show "victim \<notin> set (active (evict s now pol victim))"
    by (rule evict_removes)
  show "victim \<notin> set (trackVoices (evict s now pol victim) (v_name victim))"
    by (rule evict_removes)
  show "victim \<notin> set (setStore (evict s now pol victim) a)"
    if "activeByTrack s (v_name victim) = Some a" for a
    using that by (rule evict_removes)
  show "gainRamp (nodeStore (evict s now pol victim) (v_node victim))
         = Some (gainValue (nodeStore s (v_node victim)), now,
                 now + max 0 (orZero (stealFadeMs pol)) / 1000)"
    by (rule evict_node)
  show "stopTime (nodeStore (evict s now pol victim) (v_node victim))
         = Some (now + max 0 (orZero (stealFadeMs pol)) / 1000)"
    by (rule evict_node)
  show "gainRamp (nodeStore (evict s now pol victim) (v_node victim))
          = Some (gainValue (nodeStore s (v_node victim)), now, now + f / 1000)"
    if "stealFadeMs pol = Some f \<and> 0 \<le> f" for f
    using that by (simp add: evict_node)
  show "stopTime (nodeStore (evict s now pol victim) (v_node victim)) = Some (now + f / 1000)"
    if "stealFadeMs pol = Some f \<and> 0 \<le> f" for f
    using that by (simp add: evict_node)
  show "snd (play s now name opts)
          = snd (register (evict s now pol victim) now name opts (activeByTrack s name) pr)"
    if "pol = getPolicy s name \<and> ts = trackVoices s name \<and> pr = resolvedPriority s name opts
         \<and> buffers s name \<and> \<not> rateLimited s now name opts"
    using that assms play_after_steal by simp
qed

theorem steal_evicts_then_fades_witness:
  "ensureCapacity crowded 3 (getPolicy crowded ''a'') (trackVoices crowded ''a'') (Some 0)
     = (True, evict crowded 3 (getPolicy crowded ''a'') \<lparr> v_name = ''a'', v_node = 0, v_priority = Some 0 \<rparr>)
   \<and> active crowded = [\<lparr> v_name = ''a'', v_node = 0, v_priority = Some 0 \<rparr>,
                       \<lparr> v_name = ''a'', v_node = 1, v_priority = Some 0 \<rparr>]
   \<and> gainRamp (nodeStore (evict crowded 3 (getPolicy crowded ''a'')
                  \<lparr> v_name = ''a'', v_node = 0, v_priority = Some 0 \<rparr>) 0) = Some (1, 3, 3 + 120 / 1000)
   \<and> stopTime (nodeStore (evict crowded 3 (getPolicy crowded ''a'')
                  \<lparr> v_name = ''a'', v_node = 0, v_priority = Some 0 \<rparr>) 0) = Some (3 + 120 / 1000)
   \<and> active (snd (play crowded 3 ''a'' plainOptions))
       = [\<lparr> v_name = ''a'', v_node = 1, v_priority = Some 0 \<rparr>,
          \<lparr> v_name = ''a'', v_node = 2, v_priority = Some 0 \<rparr>]"
proof -
  let ?v = "\<lparr> v_name = ''a'', v_node = 0, v_priority = Some 0 \<rparr>"
  have a: "active crowded = [?v, \<lparr> v_name = ''a'', v_node = 1, v_priority = Some 0 \<rparr>]"
    by (simp add: crowded_def unfold_all)
  have t: "trackVoices crowded ''a'' = [?v, \<lparr> v_name = ''a'', v_node = 1, v_priority = Some 0 \<rparr>]"
    by (simp add: crowded_def unfold_all)
  have p: "getPolicy crowded ''a'' = \<lparr> maxVoices = Some 2, minInterval = Some 0, priority = Some 0,
             stealStrategy = Some ''stealOldest'', stealFadeMs = Some 120 \<rparr>"
    by (simp add: crowded_def unfold_all)
  have g: "maxGlobalVoices crowded = 2"
    by (simp add: crowded_def unfold_all)
  have sel: "reachesSelection crowded (getPolicy crowded ''a'') (trackVoices crowded ''a'')"
    by (simp add: reachesSelection_def a t p g)
  have pick: "pickVictim crowded (stealStrategy (getPolicy crowded ''a'')) (trackVoices crowded ''a'') = Some ?v"
    by (simp add: pickVictim_def t p)
  have ok: "\<not> orZero (v_priority ?v) > orZero (Some 0)" by simp
  have n: "gainValue (nodeStore crowded 0) = 1"
    by (simp add: crowded_def unfold_all)
  have f: "stealFadeMs (getPolicy crowded ''a'') = Some 120"
    by (simp add: p)
  have fin: "active (snd (play crowded 3 ''a'' plainOptions))
       = [\<lparr> v_name = ''a'', v_node = 1, v_priority = Some 0 \<rparr>,
          \<lparr> v_name = ''a'', v_node = 2, v_priority = Some 0 \<rparr>]"
    by (simp add: crowded_def unfold_all)
  show ?thesis
    using steal_evicts_then_fades[OF sel pick ok, of 3 "''a''" plainOptions] a n f fin
    by simp
qed

subsection \<open>The rate limiter\<close>

lemma register_last: "lastStartAt (snd (register s now name opts r p)) name = Some now"
  by (simp add: register_def Let_def)

lemma play_Some_last:
  assumes "fst (play s t0 name opts) = Some v"
  shows "lastStartAt (snd (play s t0 name opts)) name = Some t0"
  using assms
  by (cases "ensureCapacity s t0 (getPolicy s name) (trackVoices s name) (resolvedPriority s name opts)")
     (auto simp: play_def split_def register_last split: if_splits bool.splits)

lemma play_Some_buffers:
  assumes "fst (play s t0 name opts) = Some v"
  shows "buffers s name"
  using assms by (auto simp: play_def split: if_splits)

lemma rateLimited_iff:
  "rateLimited s now name opts =
    (\<exists>l m. lastStartAt s name = Some l \<and> effectiveMinInterval s name opts = Some m \<and> now - l < m)"
  by (auto simp: rateLimited_def split: option.splits)

lemma play_not_limited:
  assumes "buffers s name" "\<not> rateLimited s now name opts"
  shows "(fst (play s now name opts) \<noteq> None) =
     fst (ensureCapacity s now (getPolicy s name) (trackVoices s name) (resolvedPriority s name opts))"
  using assms
  by (cases "ensureCapacity s now (getPolicy s name) (trackVoices s name) (resolvedPriority s name opts)")
     (auto simp: play_def split_def split: bool.splits)

lemma evict_config:
  "maxGlobalVoices (evict s t pol victim) = maxGlobalVoices s"
  "defaultPolicy (evict s t pol victim) = defaultPolicy s"
  "trackPolicies (evict s t pol victim) = trackPolicies s"
  "buffers (evict s t pol victim) = buffers s"
  by (simp_all add: evict_def Let_def)

lemma register_config:
  "maxGlobalVoices (snd (register s now name opts r p)) = maxGlobalVoices s"
  "defaultPolicy (snd (register s now name opts r p)) = defaultPolicy s"
  "trackPolicies (snd (register s now name opts r p)) = trackPolicies s"
  "buffers (snd (register s now name opts r p)) = buffers s"
  by (simp_all add: register_def Let_def)

lemma play_config:
  "maxGlobalVoices (snd (play s now name opts)) = maxGlobalVoices s"
  "defaultPolicy (snd (play s now name opts)) = defaultPolicy s"
  "trackPolicies (snd (play s now name opts)) = trackPolicies s"
  "buffers (snd (play s now name opts)) = buffers s"
  using ensureCapacity_cases[of s now "getPolicy s name" "trackVoices s name" "resolvedPriority s name opts"]
  by (auto simp: play_def split_def register_config evict_config)

lemma getPolicy_play: "getPolicy (snd (play s now name opts)) n = getPolicy s n"
  by (simp add: getPolicy_def play_config)

lemma effectiveMinInterval_eq:
  assumes "o_minIntervalOverride opts = Some m
           \<or> o_minIntervalOverride opts = None \<and> minInterval (getPolicy s name) = Some m"
  shows "effectiveMinInterval s name opts = Some m"
  using assms by (auto simp: effectiveMinInterval_def)

lemma effectiveMinInterval_play:
  "effectiveMinInterval (snd (play s t0 name opts0)) n opts = effectiveMinInterval s n opts"
  by (simp add: effectiveMinInterval_def getPolicy_play split: option.splits)

text \<open>
  C5. On a loaded track with last admitted start \<open>l\<close>, let \<open>m\<close> be the minimum interval in
  force: \<^verbatim>\<open>options.minIntervalOverride\<close> when the call gives one, else the \<^verbatim>\<open>minInterval\<close>
  of the resolved policy of the track. A call at a clock reading \<open>now\<close> with \<open>now - l < m\<close>
  returns \<^verbatim>\<open>null\<close>. A track never played is never rate-limited. After an admitted call
  at \<open>t0\<close>, a second call at \<open>t1\<close> with \<open>t1 - t0 < m\<close> returns \<^verbatim>\<open>null\<close>; a call with
  \<open>m \<le> t1 - t0\<close> passes the rate limiter, and whether it returns a voice is decided by
  the capacity check alone.
\<close>

theorem rate_limiter:
  "(buffers s name \<and> lastStartAt s name = Some l
      \<and> (o_minIntervalOverride opts = Some m
          \<or> o_minIntervalOverride opts = None \<and> minInterval (getPolicy s name) = Some m)
      \<and> now - l < m
    \<longrightarrow> play s now name opts = (None, s))
   \<and> (lastStartAt s name = None \<longrightarrow> \<not> rateLimited s now name opts)
   \<and> (fst (play s t0 name opts0) = Some v
      \<and> (o_minIntervalOverride opts = Some m
          \<or> o_minIntervalOverride opts = None \<and> minInterval (getPolicy s name) = Some m)
      \<and> t1 - t0 < m
    \<longrightarrow> play (snd (play s t0 name opts0)) t1 name opts = (None, snd (play s t0 name opts0)))
   \<and> (fst (play s t0 name opts0) = Some v
      \<and> (o_minIntervalOverride opts = Some m
          \<or> o_minIntervalOverride opts = None \<and> minInterval (getPolicy s name) = Some m)
      \<and> m \<le> t1 - t0
    \<longrightarrow> \<not> rateLimited (snd (play s t0 name opts0)) t1 name opts
        \<and> (fst (play (snd (play s t0 name opts0)) t1 name opts) \<noteq> None) =
            fst (ensureCapacity (snd (play s t0 name opts0)) t1
                   (getPolicy (snd (play s t0 name opts0)) name)
                   (trackVoices (snd (play s t0 name opts0)) name)
                   (resolvedPriority (snd (play s t0 name opts0)) name opts)))"
proof -
  let ?s1 = "snd (play s t0 name opts0)"
  let ?eff = "o_minIntervalOverride opts = Some m
          \<or> o_minIntervalOverride opts = None \<and> minInterval (getPolicy s name) = Some m"
  have 1: "play s now name opts = (None, s)"
    if "buffers s name \<and> lastStartAt s name = Some l \<and> ?eff \<and> now - l < m"
  proof -
    from that have "effectiveMinInterval s name opts = Some m"
      using effectiveMinInterval_eq by blast
    with that have "rateLimited s now name opts" by (auto simp: rateLimited_iff)
    then show ?thesis by (simp add: play_def)
  qed
  have 2: "\<not> rateLimited s now name opts" if "lastStartAt s name = None"
    using that by (simp add: rateLimited_iff)
  have 3: "play ?s1 t1 name opts = (None, ?s1)"
    if "fst (play s t0 name opts0) = Some v \<and> ?eff \<and> t1 - t0 < m"
  proof -
    from that have "effectiveMinInterval s name opts = Some m"
      using effectiveMinInterval_eq by blast
    then have e: "effectiveMinInterval ?s1 name opts = Some m"
      by (simp add: effectiveMinInterval_play)
    from that have "lastStartAt ?s1 name = Some t0" using play_Some_last by blast
    with that e have "rateLimited ?s1 t1 name opts" by (auto simp: rateLimited_iff)
    then show ?thesis by (simp add: play_def)
  qed
  have 4: "\<not> rateLimited ?s1 t1 name opts
        \<and> (fst (play ?s1 t1 name opts) \<noteq> None) =
            fst (ensureCapacity ?s1 t1 (getPolicy ?s1 name) (trackVoices ?s1 name)
                   (resolvedPriority ?s1 name opts))"
    if "fst (play s t0 name opts0) = Some v \<and> ?eff \<and> m \<le> t1 - t0"
  proof -
    from that have "effectiveMinInterval s name opts = Some m"
      using effectiveMinInterval_eq by blast
    then have e: "effectiveMinInterval ?s1 name opts = Some m"
      by (simp add: effectiveMinInterval_play)
    from that have "lastStartAt ?s1 name = Some t0" using play_Some_last by blast
    with that e have n: "\<not> rateLimited ?s1 t1 name opts" by (auto simp: rateLimited_iff)
    from that have "buffers s name" using play_Some_buffers by blast
    then have "buffers ?s1 name" by (simp add: play_config)
    with n show ?thesis using play_not_limited by blast
  qed
  show ?thesis using 1 2 3 4 by blast
qed

theorem rate_limiter_witness:
  "play (snd (play (init pacedConfig None) 0 ''a'' plainOptions)) 0 ''a'' plainOptions
     = (None, snd (play (init pacedConfig None) 0 ''a'' plainOptions))
   \<and> play (snd (play (init pacedConfig None) 0 ''a'' plainOptions)) (1 / 2) ''a'' plainOptions
     = (None, snd (play (init pacedConfig None) 0 ''a'' plainOptions))
   \<and> fst (play (snd (play (init pacedConfig None) 0 ''a'' plainOptions)) 1 ''a'' plainOptions)
       \<noteq> None
   \<and> fst (play (snd (play (init pacedConfig None) 0 ''a'' plainOptions)) (1 / 2) ''a''
            (plainOptions \<lparr> o_minIntervalOverride := Some (1 / 2) \<rparr>)) \<noteq> None
   \<and> fst (play (snd (play (init pacedConfig None) 0 ''b'' plainOptions)) (1 / 2) ''b'' plainOptions)
       \<noteq> None
   \<and> play (snd (play (init pacedConfig None) 0 ''b'' plainOptions)) (1 / 2) ''b''
        (plainOptions \<lparr> o_minIntervalOverride := Some 1 \<rparr>)
     = (None, snd (play (init pacedConfig None) 0 ''b'' plainOptions))
   \<and> \<not> rateLimited (init pacedConfig None) 0 ''a'' plainOptions"
proof -
  let ?s = "init pacedConfig None"
  let ?va = "\<lparr> v_name = ''a'', v_node = 0, v_priority = Some 0 \<rparr>"
  let ?vb = "\<lparr> v_name = ''b'', v_node = 0, v_priority = Some 0 \<rparr>"
  let ?o1 = "plainOptions \<lparr> o_minIntervalOverride := Some 1 \<rparr>"
  let ?oh = "plainOptions \<lparr> o_minIntervalOverride := Some (1 / 2) \<rparr>"
  note defs = pacedConfig_def example_defs unfold_all
  have a: "fst (play ?s 0 ''a'' plainOptions) = Some ?va"
    by (simp add: defs)
  have b: "fst (play ?s 0 ''b'' plainOptions) = Some ?vb"
    by (simp add: defs)
  have pa: "minInterval (getPolicy ?s ''a'') = Some 1"
    by (simp add: defs)
  have pb: "minInterval (getPolicy ?s ''b'') = Some (2 / 100)"
    by (simp add: defs)
  have l: "lastStartAt ?s ''a'' = None"
    by (simp add: init_def)
  have o: "o_minIntervalOverride plainOptions = None" "o_minIntervalOverride ?o1 = Some 1"
    "o_minIntervalOverride ?oh = Some (1 / 2)"
    by (simp_all add: plainOptions_def)
  have ca: "fst (ensureCapacity (snd (play ?s 0 ''a'' plainOptions)) t
                   (getPolicy (snd (play ?s 0 ''a'' plainOptions)) ''a'')
                   (trackVoices (snd (play ?s 0 ''a'' plainOptions)) ''a'') pr)" for t pr
    by (simp add: defs)
  have cb: "fst (ensureCapacity (snd (play ?s 0 ''b'' plainOptions)) t
                   (getPolicy (snd (play ?s 0 ''b'' plainOptions)) ''b'')
                   (trackVoices (snd (play ?s 0 ''b'' plainOptions)) ''b'') pr)" for t pr
    by (simp add: defs)
  have 1: "play (snd (play ?s 0 ''a'' plainOptions)) 0 ''a'' plainOptions
     = (None, snd (play ?s 0 ''a'' plainOptions))"
    using rate_limiter[where s = ?s and ?t0.0 = 0 and name = "''a''" and ?opts0.0 = plainOptions
        and v = ?va and opts = plainOptions and m = 1 and ?t1.0 = 0] a pa o by simp
  have 2: "play (snd (play ?s 0 ''a'' plainOptions)) (1 / 2) ''a'' plainOptions
     = (None, snd (play ?s 0 ''a'' plainOptions))"
    using rate_limiter[where s = ?s and ?t0.0 = 0 and name = "''a''" and ?opts0.0 = plainOptions
        and v = ?va and opts = plainOptions and m = 1 and ?t1.0 = "1 / 2"] a pa o by simp
  have 3: "fst (play (snd (play ?s 0 ''a'' plainOptions)) 1 ''a'' plainOptions) \<noteq> None"
    using rate_limiter[where s = ?s and ?t0.0 = 0 and name = "''a''" and ?opts0.0 = plainOptions
        and v = ?va and opts = plainOptions and m = 1 and ?t1.0 = 1] a pa o ca by simp
  have 4: "fst (play (snd (play ?s 0 ''a'' plainOptions)) (1 / 2) ''a'' ?oh) \<noteq> None"
    using rate_limiter[where s = ?s and ?t0.0 = 0 and name = "''a''" and ?opts0.0 = plainOptions
        and v = ?va and opts = ?oh and m = "1 / 2" and ?t1.0 = "1 / 2"] a o ca by simp
  have 5: "fst (play (snd (play ?s 0 ''b'' plainOptions)) (1 / 2) ''b'' plainOptions) \<noteq> None"
    using rate_limiter[where s = ?s and ?t0.0 = 0 and name = "''b''" and ?opts0.0 = plainOptions
        and v = ?vb and opts = plainOptions and m = "2 / 100" and ?t1.0 = "1 / 2"] b pb o cb by simp
  have 6: "play (snd (play ?s 0 ''b'' plainOptions)) (1 / 2) ''b'' ?o1
     = (None, snd (play ?s 0 ''b'' plainOptions))"
    using rate_limiter[where s = ?s and ?t0.0 = 0 and name = "''b''" and ?opts0.0 = plainOptions
        and v = ?vb and opts = ?o1 and m = 1 and ?t1.0 = "1 / 2"] b o by simp
  have 7: "\<not> rateLimited ?s 0 ''a'' plainOptions"
    using rate_limiter[where s = ?s and name = "''a''" and now = 0 and opts = plainOptions] l
    by simp
  from 1 2 3 4 5 6 7 show ?thesis by simp
qed

subsection \<open>The quietest voice\<close>

lemma quietest_running:
  "\<exists>v. quietest sc xs (Some (sc u)) (Some u) = Some v
        \<and> (v = u \<or> v \<in> set xs) \<and> sc v \<le> sc u \<and> (\<forall>w \<in> set xs. sc v \<le> sc w)"
proof (induction xs arbitrary: u)
  case Nil
  show ?case by simp
next
  case (Cons x xs)
  show ?case
  proof (cases "sc x < sc u")
    case True
    from Cons.IH[of x] obtain v where
      v: "quietest sc xs (Some (sc x)) (Some x) = Some v" "v = x \<or> v \<in> set xs"
         "sc v \<le> sc x" "\<forall>w \<in> set xs. sc v \<le> sc w"
      by (elim exE conjE)
    from v(1) True have "quietest sc (x # xs) (Some (sc u)) (Some u) = Some v" by simp
    moreover from v(2) have "v = u \<or> v \<in> set (x # xs)" by auto
    moreover from v(3) True have "sc v \<le> sc u" by simp
    moreover from v(3,4) have "\<forall>w \<in> set (x # xs). sc v \<le> sc w" by simp
    ultimately show ?thesis by (intro exI conjI)
  next
    case False
    from Cons.IH[of u] obtain v where
      v: "quietest sc xs (Some (sc u)) (Some u) = Some v" "v = u \<or> v \<in> set xs"
         "sc v \<le> sc u" "\<forall>w \<in> set xs. sc v \<le> sc w"
      by (elim exE conjE)
    from v(1) False have "quietest sc (x # xs) (Some (sc u)) (Some u) = Some v" by simp
    moreover from v(2) have "v = u \<or> v \<in> set (x # xs)" by auto
    moreover from v(3) False v(4) have "\<forall>w \<in> set (x # xs). sc v \<le> sc w" by simp
    ultimately show ?thesis using v(3) by (intro exI conjI)
  qed
qed

text \<open>The scan does return a voice of minimal score.\<close>

lemma pickVictim_quietest_minimal:
  assumes "active s \<noteq> []"
  shows "\<exists>v. pickVictim s (Some ''stealQuietest'') ts = Some v \<and> v \<in> set (active s)
             \<and> (\<forall>w \<in> set (active s). score s v \<le> score s w)"
proof -
  from assms obtain x xs where a: "active s = x # xs" by (cases "active s") auto
  from quietest_running[of "score s" xs x] obtain v where
    v: "quietest (score s) xs (Some (score s x)) (Some x) = Some v" "v = x \<or> v \<in> set xs"
       "score s v \<le> score s x" "\<forall>w \<in> set xs. score s v \<le> score s w"
    by (elim exE conjE)
  from v(1) a have "pickVictim s (Some ''stealQuietest'') ts = Some v"
    by (simp add: pickVictim_def)
  moreover from v(2) a have "v \<in> set (active s)" by auto
  moreover from v(3,4) a have "\<forall>w \<in> set (active s). score s v \<le> score s w" by simp
  ultimately show ?thesis by (intro exI conjI)
qed

text \<open>A higher priority gives a lower score, whatever the volumes in the range 0 to 1.\<close>

lemma score_decreases_with_priority:
  assumes "orZero (v_priority v) + 1 \<le> orZero (v_priority w)"
    and "0 \<le> volumeOf s v" and "volumeOf s w \<le> 1"
  shows "score s w < score s v"
  using assms by (simp add: score_def)

text \<open>
  C1. The scan computes \<open>priority * -1000 + volume\<close> for every active voice and keeps the
  first voice of minimal score; with that sign the voice of the highest priority has the
  lowest score. In the state \<open>contested\<close> the active voices have priorities 2, 2, 1 and
  volumes 0.9, 0.1, 1.0, hence scores -1999.1, -1999.9 and -999: the voice picked is the
  second one, of priority 2 and volume 0.1, and a request of priority 2 evicts it, while the
  voice of priority 1 stays active. (Among the two voices of priority 2 it is the one of
  volume 0.1 that goes.)
\<close>

theorem quietest_picks_highest_priority:
  "map v_priority (active contested) = [Some 2, Some 2, Some 1]
   \<and> map (volumeOf contested) (active contested) = [9 / 10, 1 / 10, 1]
   \<and> map (score contested) (active contested) = [- 19991 / 10, - 19999 / 10, - 999]
   \<and> reachesSelection contested (getPolicy contested ''a'') (trackVoices contested ''a'')
   \<and> pickVictim contested (stealStrategy (getPolicy contested ''a'')) (trackVoices contested ''a'')
       = Some \<lparr> v_name = ''a'', v_node = 1, v_priority = Some 2 \<rparr>
   \<and> active (snd (play contested 0 ''a'' (plainOptions \<lparr> o_priority := Some 2 \<rparr>)))
       = [\<lparr> v_name = ''a'', v_node = 0, v_priority = Some 2 \<rparr>,
          \<lparr> v_name = ''a'', v_node = 2, v_priority = Some 1 \<rparr>,
          \<lparr> v_name = ''a'', v_node = 3, v_priority = Some 2 \<rparr>]"
  by (simp add: example_defs unfold_all)

subsection \<open>Policy resolution\<close>

lemma getPolicy_init_maxVoices:
  "maxVoices (getPolicy (init cfg prev) name) =
     (case pp_maxVoices (case cfg_tracks cfg name of Some q \<Rightarrow> q | None \<Rightarrow> noPolicy) of
        Defined v \<Rightarrow> Some v
      | _ \<Rightarrow> (case pp_maxVoices (cfg_defaultPolicy cfg) of
                Defined v \<Rightarrow> Some v | Absent \<Rightarrow> Some 8 | Undefined \<Rightarrow> None))"
  by (simp add: getPolicy_def init_def Let_def split: field.splits)

lemma getPolicy_init_minInterval:
  "minInterval (getPolicy (init cfg prev) name) =
     (case pp_minInterval (case cfg_tracks cfg name of Some q \<Rightarrow> q | None \<Rightarrow> noPolicy) of
        Defined v \<Rightarrow> Some v
      | _ \<Rightarrow> (case pp_minInterval (cfg_defaultPolicy cfg) of
                Defined v \<Rightarrow> Some v | Absent \<Rightarrow> Some (2 / 100) | Undefined \<Rightarrow> None))"
  by (simp add: getPolicy_def init_def Let_def split: field.splits)

lemma getPolicy_init_priority:
  "priority (getPolicy (init cfg prev) name) =
     (case pp_priority (case cfg_tracks cfg name of Some q \<Rightarrow> q | None \<Rightarrow> noPolicy) of
        Defined v \<Rightarrow> Some v
      | _ \<Rightarrow> (case pp_priority (cfg_defaultPolicy cfg) of
                Defined v \<Rightarrow> Some v | Absent \<Rightarrow> Some 0 | Undefined \<Rightarrow> None))"
  by (simp add: getPolicy_def init_def Let_def split: field.splits)

lemma getPolicy_init_stealStrategy:
  "stealStrategy (getPolicy (init cfg prev) name) =
     (case pp_stealStrategy (case cfg_tracks cfg name of Some q \<Rightarrow> q | None \<Rightarrow> noPolicy) of
        Defined v \<Rightarrow> Some v
      | _ \<Rightarrow> (case pp_stealStrategy (cfg_defaultPolicy cfg) of
                Defined v \<Rightarrow> Some v | Absent \<Rightarrow> Some ''ignore'' | Undefined \<Rightarrow> None))"
  by (simp add: getPolicy_def init_def Let_def split: field.splits)

lemma getPolicy_init_stealFadeMs:
  "stealFadeMs (getPolicy (init cfg prev) name) =
     (case pp_stealFadeMs (case cfg_tracks cfg name of Some q \<Rightarrow> q | None \<Rightarrow> noPolicy) of
        Defined v \<Rightarrow> Some v
      | _ \<Rightarrow> (case pp_stealFadeMs (cfg_defaultPolicy cfg) of
                Defined v \<Rightarrow> Some v | _ \<Rightarrow> Some 120))"
  by (simp add: getPolicy_def init_def Let_def split: field.splits)

text \<open>
  C8. \<^verbatim>\<open>getPolicy\<close> reads only the configuration and merges field by field, the track's
  value first, then the default policy's. The hard-coded fallbacks are written into the
  default policy by the object spread of \<^verbatim>\<open>init\<close>, which a key set to \<^verbatim>\<open>undefined\<close>
  overwrites: after \<^verbatim>\<open>init\<close> with \<^verbatim>\<open>defaultPolicy: { maxVoices: undefined }\<close> the resolved
  \<^verbatim>\<open>maxVoices\<close> of a track with no policy of its own is \<^verbatim>\<open>undefined\<close>, not 8. (Only
  \<^verbatim>\<open>stealFadeMs\<close> is guarded a second time, by \<^verbatim>\<open>?? 120\<close> in \<^verbatim>\<open>getPolicy\<close>.)
\<close>

theorem explicit_undefined_defeats_fallback:
  "maxVoices (getPolicy (init undefinedDefault None) ''a'') = None
   \<and> maxVoices (getPolicy (init defaultConfig None) ''a'') = Some 8"
  by (simp add: example_defs unfold_all)

subsection \<open>A track above its limit\<close>

text \<open>
  C10. There is an execution after which a track holds more voices than its \<^verbatim>\<open>maxVoices\<close>.
  In the state \<open>shared\<close> (reachable from \<^verbatim>\<open>init\<close>) track \<^verbatim>\<open>a\<close> is at its limit 1; the scan of
  \<^verbatim>\<open>stealQuietest\<close> is global and its minimum is the voice of track \<^verbatim>\<open>b\<close>, which is evicted;
  \<^verbatim>\<open>_ensureCapacity\<close> returns true and the new voice joins track \<^verbatim>\<open>a\<close>, which then counts
  2 voices against a limit of 1.
\<close>

theorem track_exceeds_maxVoices:
  "reachable shared
   \<and> maxVoices (getPolicy shared ''a'') = Some 1
   \<and> getActiveCount shared (Some ''a'') = 1
   \<and> getActiveCount shared (Some ''b'') = 1
   \<and> pickVictim shared (stealStrategy (getPolicy shared ''a'')) (trackVoices shared ''a'')
       = Some \<lparr> v_name = ''b'', v_node = 0, v_priority = Some 0 \<rparr>
   \<and> fst (ensureCapacity shared 0 (getPolicy shared ''a'') (trackVoices shared ''a'')
            (resolvedPriority shared ''a'' plainOptions))
   \<and> fst (play shared 0 ''a'' plainOptions) = Some \<lparr> v_name = ''a'', v_node = 2, v_priority = Some 0 \<rparr>
   \<and> maxVoices (getPolicy (snd (play shared 0 ''a'' plainOptions)) ''a'') = Some 1
   \<and> getActiveCount (snd (play shared 0 ''a'' plainOptions)) (Some ''a'') = 2
   \<and> getActiveCount (snd (play shared 0 ''a'' plainOptions)) (Some ''b'') = 0"
proof -
  have "reachable shared"
    unfolding shared_def by (intro reachable.intros)
  moreover have "maxVoices (getPolicy shared ''a'') = Some 1
   \<and> getActiveCount shared (Some ''a'') = 1
   \<and> getActiveCount shared (Some ''b'') = 1
   \<and> pickVictim shared (stealStrategy (getPolicy shared ''a'')) (trackVoices shared ''a'')
       = Some \<lparr> v_name = ''b'', v_node = 0, v_priority = Some 0 \<rparr>
   \<and> fst (ensureCapacity shared 0 (getPolicy shared ''a'') (trackVoices shared ''a'')
            (resolvedPriority shared ''a'' plainOptions))
   \<and> fst (play shared 0 ''a'' plainOptions) = Some \<lparr> v_name = ''a'', v_node = 2, v_priority = Some 0 \<rparr>
   \<and> maxVoices (getPolicy (snd (play shared 0 ''a'' plainOptions)) ''a'') = Some 1
   \<and> getActiveCount (snd (play shared 0 ''a'' plainOptions)) (Some ''a'') = 2
   \<and> getActiveCount (snd (play shared 0 ''a'' plainOptions)) (Some ''b'') = 0"
    by (simp add: example_defs unfold_all getActiveCount_def)
  ultimately show ?thesis by simp
qed

subsection \<open>Order of admission\<close>

lemma sorted_wrt_removeAll: "sorted_wrt P xs \<Longrightarrow> sorted_wrt P (removeAll x xs)"
  by (induction xs) auto

lemma sorted_wrt_setAdd:
  "sorted_wrt (\<lambda>x y. v_node x < v_node y) xs \<Longrightarrow> \<forall>w \<in> set xs. v_node w < v_node v
     \<Longrightarrow> sorted_wrt (\<lambda>x y. v_node x < v_node y) (setAdd v xs)"
  by (auto simp: setAdd_def sorted_wrt_append)

lemma set_setAdd: "set (setAdd x xs) = insert x (set xs)"
  by (auto simp: setAdd_def)

lemma ordered_init: "ordered (init cfg None)"
  by (simp add: ordered_def init_def)

lemma ordered_reinit: "ordered s \<Longrightarrow> ordered (init cfg (Some s))"
  by (simp add: ordered_def init_def)

lemma ordered_evict: "ordered s \<Longrightarrow> ordered (evict s t pol victim)"
  by (auto simp: ordered_def evict_def Let_def setDelete_def sorted_wrt_removeAll split: option.splits)

lemma ordered_register: "ordered s \<Longrightarrow> ordered (snd (register s now name opts r p))"
  unfolding ordered_def register_def Let_def
  by (auto simp: set_setAdd less_Suc_eq intro!: sorted_wrt_setAdd split: option.splits)

lemma ordered_play: "ordered s \<Longrightarrow> ordered (snd (play s now name opts))"
  using ensureCapacity_cases[of s now "getPolicy s name" "trackVoices s name" "resolvedPriority s name opts"]
  by (auto simp: play_def split_def ordered_register ordered_evict)

lemma ordered_handleEnd: "ordered s \<Longrightarrow> ordered (handleEnd s v a)"
  by (auto simp: ordered_def handleEnd_def Let_def setDelete_def sorted_wrt_removeAll)

lemma ordered_sourceEnded: "ordered s \<Longrightarrow> ordered (sourceEnded s i)"
  by (auto simp: sourceEnded_def ordered_handleEnd split: handler.splits)

lemma ordered_gain: "ordered s \<Longrightarrow> ordered (gainAutomation s i x)"
  by (simp add: ordered_def gainAutomation_def)

lemma ordered_load: "ordered s \<Longrightarrow> ordered (loadBuffer s name)"
  by (simp add: ordered_def loadBuffer_def)

lemma reachable_ordered: "reachable s \<Longrightarrow> ordered s"
  by (induction rule: reachable.induct)
     (simp_all add: ordered_init ordered_reinit ordered_play ordered_sourceEnded ordered_gain ordered_load)

lemma firstValue_least:
  assumes "sorted_wrt (\<lambda>x y. v_node x < v_node y) xs" and "xs \<noteq> []"
  shows "\<exists>v. firstValue xs = Some v \<and> v \<in> set xs
             \<and> (\<forall>w \<in> set xs. w = v \<or> v_node v < v_node w)"
  using assms by (cases xs) auto

text \<open>
  C3. Under \<^verbatim>\<open>stealOldest\<close> the victim is the first member, in insertion order, of the set
  of the requesting track when that set is not empty, and else the first member of the
  global set (and there is no victim when both are empty). In every state of an execution
  the sets list their members by increasing admission (the invariant \<open>ordered\<close>), so the
  victim was admitted before every other member: a voice admitted later is never chosen
  over one admitted earlier.
\<close>

theorem stealOldest_picks_earliest:
  assumes "reachable s"
  shows "(trackVoices s name \<noteq> [] \<longrightarrow>
            (\<exists>v. pickVictim s (Some ''stealOldest'') (trackVoices s name) = Some v
                 \<and> v \<in> set (trackVoices s name)
                 \<and> (\<forall>w \<in> set (trackVoices s name). w = v \<or> v_node v < v_node w)))
       \<and> (trackVoices s name = [] \<and> active s \<noteq> [] \<longrightarrow>
            (\<exists>v. pickVictim s (Some ''stealOldest'') (trackVoices s name) = Some v
                 \<and> v \<in> set (active s)
                 \<and> (\<forall>w \<in> set (active s). w = v \<or> v_node v < v_node w)))
       \<and> (trackVoices s name = [] \<and> active s = [] \<longrightarrow>
            pickVictim s (Some ''stealOldest'') (trackVoices s name) = None)"
proof -
  have o: "ordered s" using assms(1) by (rule reachable_ordered)
  have t: "sorted_wrt (\<lambda>x y. v_node x < v_node y) (trackVoices s name)"
    using o by (auto simp: ordered_def trackVoices_def split: option.splits)
  have a: "sorted_wrt (\<lambda>x y. v_node x < v_node y) (active s)"
    using o by (simp add: ordered_def)
  have 1: "\<exists>v. pickVictim s (Some ''stealOldest'') (trackVoices s name) = Some v
                 \<and> v \<in> set (trackVoices s name)
                 \<and> (\<forall>w \<in> set (trackVoices s name). w = v \<or> v_node v < v_node w)"
    if ne: "trackVoices s name \<noteq> []"
  proof -
    from firstValue_least[OF t ne] obtain v where
      v: "firstValue (trackVoices s name) = Some v" "v \<in> set (trackVoices s name)"
         "\<forall>w \<in> set (trackVoices s name). w = v \<or> v_node v < v_node w"
      by (elim exE conjE)
    from v(1) have "pickVictim s (Some ''stealOldest'') (trackVoices s name) = Some v"
      by (simp add: pickVictim_def)
    with v(2,3) show ?thesis by (intro exI conjI)
  qed
  have 2: "\<exists>v. pickVictim s (Some ''stealOldest'') (trackVoices s name) = Some v
                 \<and> v \<in> set (active s)
                 \<and> (\<forall>w \<in> set (active s). w = v \<or> v_node v < v_node w)"
    if e: "trackVoices s name = [] \<and> active s \<noteq> []"
  proof -
    from e have ne: "active s \<noteq> []" by (rule conjunct2)
    from firstValue_least[OF a ne] obtain v where
      v: "firstValue (active s) = Some v" "v \<in> set (active s)"
         "\<forall>w \<in> set (active s). w = v \<or> v_node v < v_node w"
      by (elim exE conjE)
    from v(1) e have "pickVictim s (Some ''stealOldest'') (trackVoices s name) = Some v"
      by (simp add: pickVictim_def)
    with v(2,3) show ?thesis by (intro exI conjI)
  qed
  have 3: "pickVictim s (Some ''stealOldest'') (trackVoices s name) = None"
    if "trackVoices s name = [] \<and> active s = []"
    using that by (simp add: pickVictim_def)
  from 1 2 3 show ?thesis by (intro conjI impI)
qed

theorem stealOldest_picks_earliest_witness:
  "reachable crowded
   \<and> pickVictim crowded (Some ''stealOldest'') (trackVoices crowded ''a'')
       = Some \<lparr> v_name = ''a'', v_node = 0, v_priority = Some 0 \<rparr>
   \<and> trackVoices crowded ''a'' = [\<lparr> v_name = ''a'', v_node = 0, v_priority = Some 0 \<rparr>,
                                  \<lparr> v_name = ''a'', v_node = 1, v_priority = Some 0 \<rparr>]
   \<and> reachable guarded
   \<and> trackVoices guarded ''b'' = []
   \<and> pickVictim guarded (Some ''stealOldest'') (trackVoices guarded ''b'')
       = Some \<lparr> v_name = ''a'', v_node = 0, v_priority = Some 5 \<rparr>
   \<and> \<lparr> v_name = ''a'', v_node = 0, v_priority = Some 5 \<rparr> \<in> set (active guarded)"
proof -
  have r1: "reachable crowded"
    unfolding crowded_def by (intro reachable.intros)
  have r2: "reachable guarded"
    unfolding guarded_def by (intro reachable.intros)
  have t1: "trackVoices crowded ''a'' = [\<lparr> v_name = ''a'', v_node = 0, v_priority = Some 0 \<rparr>,
                                  \<lparr> v_name = ''a'', v_node = 1, v_priority = Some 0 \<rparr>]"
    by (simp add: crowded_def unfold_all)
  have p1: "pickVictim crowded (Some ''stealOldest'') (trackVoices crowded ''a'')
       = Some \<lparr> v_name = ''a'', v_node = 0, v_priority = Some 0 \<rparr>"
    by (simp add: pickVictim_def t1)
  have t2: "trackVoices guarded ''b'' = []"
    by (simp add: guarded_def unfold_all)
  have p2: "pickVictim guarded (Some ''stealOldest'') (trackVoices guarded ''b'')
       = Some \<lparr> v_name = ''a'', v_node = 0, v_priority = Some 5 \<rparr>"
    by (simp add: pickVictim_def t2 guarded_active)
  show ?thesis
    using stealOldest_picks_earliest[OF r1, of "''a''"] stealOldest_picks_earliest[OF r2, of "''b''"]
      r1 r2 t1 p1 t2 p2 guarded_active
    by simp
qed

subsection \<open>The strategy \<^verbatim>\<open>ignore\<close>\<close>










subsection \<open>Consistency of the registry\<close>

lemma consistent_mem:
  "consistent s \<Longrightarrow> activeByTrack s n = Some a
     \<Longrightarrow> (w \<in> set (setStore s a)) = (w \<in> set (active s) \<and> v_name w = n)"
  unfolding consistent_def by (elim conjE) simp

lemma consistent_set:
  "consistent s \<Longrightarrow> activeByTrack s n = Some a
     \<Longrightarrow> setStore s a \<noteq> [] \<and> distinct (setStore s a) \<and> a < nextSet s"
  unfolding consistent_def by (elim conjE) simp

lemma consistent_active:
  "consistent s \<Longrightarrow> v \<in> set (active s)
     \<Longrightarrow> v_node v < nextNode s
         \<and> (\<exists>a. activeByTrack s (v_name v) = Some a
                 \<and> onended (nodeStore s (v_node v)) = HandleEnd v a)"
  unfolding consistent_def by (elim conjE) simp

lemma consistent_handler:
  "consistent s \<Longrightarrow> onended (nodeStore s i) = HandleEnd v a \<Longrightarrow> v \<in> set (active s) \<and> v_node v = i"
  unfolding consistent_def by (elim conjE) meson

lemma consistent_distinct: "consistent s \<Longrightarrow> distinct (active s)"
  unfolding consistent_def by (elim conjE)

lemma consistentI:
  assumes "distinct (active s)"
    and "\<And>n a. activeByTrack s n = Some a \<Longrightarrow>
           setStore s a \<noteq> [] \<and> distinct (setStore s a) \<and> a < nextSet s"
    and "\<And>n a w. activeByTrack s n = Some a \<Longrightarrow>
           (w \<in> set (setStore s a)) = (w \<in> set (active s) \<and> v_name w = n)"
    and "\<And>v. v \<in> set (active s) \<Longrightarrow> v_node v < nextNode s
             \<and> (\<exists>a. activeByTrack s (v_name v) = Some a
                     \<and> onended (nodeStore s (v_node v)) = HandleEnd v a)"
    and "\<And>i v a. onended (nodeStore s i) = HandleEnd v a \<Longrightarrow> v \<in> set (active s) \<and> v_node v = i"
  shows "consistent s"
  unfolding consistent_def
proof (intro conjI allI impI ballI)
  show "distinct (active s)" by (rule assms(1))
next
  fix n a assume "activeByTrack s n = Some a"
  from assms(2)[OF this] show "setStore s a \<noteq> []" "distinct (setStore s a)" "a < nextSet s"
    by simp_all
next
  fix n a w assume "activeByTrack s n = Some a"
  from assms(3)[OF this] show "(w \<in> set (setStore s a)) = (w \<in> set (active s) \<and> v_name w = n)" .
next
  fix v assume "v \<in> set (active s)"
  from assms(4)[OF this] show "v_node v < nextNode s"
    "\<exists>a. activeByTrack s (v_name v) = Some a \<and> onended (nodeStore s (v_node v)) = HandleEnd v a"
    by simp_all
next
  fix i v a assume "onended (nodeStore s i) = HandleEnd v a"
  from assms(5)[OF this] show "v \<in> set (active s)" "v_node v = i" by simp_all
qed

lemma consistent_cong:
  assumes c: "consistent s" and e: "active s1 = active s" "activeByTrack s1 = activeByTrack s"
    "setStore s1 = setStore s" "\<And>i. onended (nodeStore s1 i) = onended (nodeStore s i)"
    "nextNode s1 = nextNode s" "nextSet s1 = nextSet s"
  shows "consistent s1"
proof (rule consistentI)
  show "distinct (active s1)"
    using consistent_distinct[OF c] by (simp add: e(1))
next
  fix n a assume "activeByTrack s1 n = Some a"
  then have "activeByTrack s n = Some a" by (simp add: e(2))
  from consistent_set[OF c this]
  show "setStore s1 a \<noteq> [] \<and> distinct (setStore s1 a) \<and> a < nextSet s1"
    by (simp add: e(3) e(6))
next
  fix n a w assume "activeByTrack s1 n = Some a"
  then have "activeByTrack s n = Some a" by (simp add: e(2))
  from consistent_mem[OF c this, of w]
  show "(w \<in> set (setStore s1 a)) = (w \<in> set (active s1) \<and> v_name w = n)"
    by (simp add: e(1) e(3))
next
  fix v assume "v \<in> set (active s1)"
  then have "v \<in> set (active s)" by (simp add: e(1))
  from consistent_active[OF c this]
  show "v_node v < nextNode s1
       \<and> (\<exists>a. activeByTrack s1 (v_name v) = Some a
               \<and> onended (nodeStore s1 (v_node v)) = HandleEnd v a)"
    by (simp add: e(2) e(4) e(5))
next
  fix i v a assume "onended (nodeStore s1 i) = HandleEnd v a"
  then have "onended (nodeStore s i) = HandleEnd v a" by (simp add: e(4))
  from consistent_handler[OF c this]
  show "v \<in> set (active s1) \<and> v_node v = i" by (simp add: e(1))
qed

lemma consistent_inj:
  assumes "consistent s" "activeByTrack s n = Some b" "activeByTrack s m = Some b"
  shows "n = m"
proof -
  from consistent_set[OF assms(1,2)] obtain w where w: "w \<in> set (setStore s b)"
    by (cases "setStore s b") auto
  from w consistent_mem[OF assms(1,2)] consistent_mem[OF assms(1,3)] show ?thesis by auto
qed

lemma consistent_node:
  assumes "consistent s" "w \<in> set (active s)" "v \<in> set (active s)" "v_node w = v_node v"
  shows "w = v"
proof -
  from consistent_active[OF assms(1,2)] obtain b where
    1: "onended (nodeStore s (v_node w)) = HandleEnd w b" by (elim conjE exE)
  from consistent_active[OF assms(1,3)] obtain b' where
    2: "onended (nodeStore s (v_node v)) = HandleEnd v b'" by (elim conjE exE)
  have "HandleEnd w b = HandleEnd v b'"
    using 1 2 unfolding assms(4) by (rule trans[OF sym])
  then show ?thesis by (rule handler.inject[THEN iffD1, THEN conjunct1])
qed

text \<open>The registry part of a removal, shared by the eviction and by \<^verbatim>\<open>handleEnd\<close>.\<close>

lemma consistent_remove:
  assumes c: "consistent s" and v: "v \<in> set (active s)"
    and a: "activeByTrack s (v_name v) = Some a"
    and act: "active s1 = removeAll v (active s)"
    and st: "setStore s1 = (setStore s)(a := removeAll v (setStore s a))"
    and mp: "activeByTrack s1 = (if removeAll v (setStore s a) = []
                                 then (activeByTrack s)(v_name v := None) else activeByTrack s)"
    and hd: "\<And>i. onended (nodeStore s1 i) = (if i = v_node v then NoHandler else onended (nodeStore s i))"
    and nn: "nextNode s1 = nextNode s" and ns: "nextSet s1 = nextSet s"
  shows "consistent s1"
proof (rule consistentI)
  show "distinct (active s1)"
    using consistent_distinct[OF c] act by (simp add: distinct_removeAll)
next
  fix n b
  assume m: "activeByTrack s1 n = Some b"
  show "setStore s1 b \<noteq> [] \<and> distinct (setStore s1 b) \<and> b < nextSet s1"
  proof (cases "n = v_name v")
    case True
    with m mp a have "removeAll v (setStore s a) \<noteq> []" and "b = a"
      by (auto split: if_splits)
    with consistent_set[OF c a] show ?thesis
      by (simp add: st ns distinct_removeAll)
  next
    case False
    with m mp have m0: "activeByTrack s n = Some b" by (auto split: if_splits)
    with a False have "b \<noteq> a" using consistent_inj[OF c] by blast
    with consistent_set[OF c m0] show ?thesis by (simp add: st ns)
  qed
next
  fix n b w
  assume m: "activeByTrack s1 n = Some b"
  show "(w \<in> set (setStore s1 b)) = (w \<in> set (active s1) \<and> v_name w = n)"
  proof (cases "n = v_name v")
    case True
    with m mp a have "b = a" by (auto split: if_splits)
    with consistent_mem[OF c a, of w] True show ?thesis
      by (auto simp: st act)
  next
    case False
    with m mp have m0: "activeByTrack s n = Some b" by (auto split: if_splits)
    with a False have "b \<noteq> a" using consistent_inj[OF c] by blast
    with consistent_mem[OF c m0, of w] False show ?thesis
      by (auto simp: st act)
  qed
next
  fix w
  assume w: "w \<in> set (active s1)"
  with act have w0: "w \<in> set (active s)" and wv: "w \<noteq> v" by auto
  from consistent_active[OF c w0] obtain b where b: "v_node w < nextNode s"
      "activeByTrack s (v_name w) = Some b" "onended (nodeStore s (v_node w)) = HandleEnd w b"
    by (elim conjE exE)
  have nd: "v_node w \<noteq> v_node v" using consistent_node[OF c w0 v] wv by blast
  have "activeByTrack s1 (v_name w) = Some b"
  proof (cases "v_name w = v_name v")
    case True
    with w0 wv consistent_mem[OF c a, of w] have "w \<in> set (removeAll v (setStore s a))" by auto
    then have "removeAll v (setStore s a) \<noteq> []" by (metis empty_iff empty_set)
    with mp b(2) show ?thesis by simp
  next
    case False
    with mp b(2) show ?thesis by simp
  qed
  with b nd show "v_node w < nextNode s1
       \<and> (\<exists>b. activeByTrack s1 (v_name w) = Some b
               \<and> onended (nodeStore s1 (v_node w)) = HandleEnd w b)"
    by (simp add: hd nn)
next
  fix i w b
  assume h: "onended (nodeStore s1 i) = HandleEnd w b"
  then have i: "i \<noteq> v_node v" and h0: "onended (nodeStore s i) = HandleEnd w b"
    by (auto simp: hd split: if_splits)
  from consistent_handler[OF c h0] i show "w \<in> set (active s1) \<and> v_node w = i"
    by (auto simp: act)
qed

lemma consistent_evict:
  assumes "consistent s" "victim \<in> set (active s)"
  shows "consistent (evict s t pol victim)"
proof -
  from consistent_active[OF assms] obtain a where a: "activeByTrack s (v_name victim) = Some a"
    by (elim conjE exE)
  show ?thesis
  proof (rule consistent_remove[OF assms a])
    show "active (evict s t pol victim) = removeAll victim (active s)"
      by (simp add: evict_def Let_def setDelete_def)
    show "setStore (evict s t pol victim) = (setStore s)(a := removeAll victim (setStore s a))"
      by (simp add: evict_def Let_def setDelete_def a)
    show "activeByTrack (evict s t pol victim) =
        (if removeAll victim (setStore s a) = [] then (activeByTrack s)(v_name victim := None)
         else activeByTrack s)"
      by (simp add: evict_def Let_def setDelete_def a)
    show "onended (nodeStore (evict s t pol victim) i) =
        (if i = v_node victim then NoHandler else onended (nodeStore s i))" for i
      by (simp add: evict_def Let_def)
    show "nextNode (evict s t pol victim) = nextNode s"
      by (simp add: evict_def Let_def)
    show "nextSet (evict s t pol victim) = nextSet s"
      by (simp add: evict_def Let_def)
  qed
qed

lemma consistent_handleEnd:
  assumes "consistent s" "onended (nodeStore s i) = HandleEnd v a"
  shows "consistent (handleEnd s v a)"
proof -
  from consistent_handler[OF assms] have v: "v \<in> set (active s)" and i: "v_node v = i"
    by simp_all
  from consistent_active[OF assms(1) v] obtain b where
    b: "activeByTrack s (v_name v) = Some b" "onended (nodeStore s (v_node v)) = HandleEnd v b"
    by (elim conjE exE)
  have "HandleEnd v a = HandleEnd v b"
    using assms(2) b(2) unfolding i by (rule trans[OF sym])
  then have "a = b" by (rule handler.inject[THEN iffD1, THEN conjunct2])
  with b(1) have a: "activeByTrack s (v_name v) = Some a" by simp
  show ?thesis
  proof (rule consistent_remove[OF assms(1) v a])
    show "active (handleEnd s v a) = removeAll v (active s)"
      by (simp add: handleEnd_def Let_def setDelete_def)
    show "setStore (handleEnd s v a) = (setStore s)(a := removeAll v (setStore s a))"
      by (simp add: handleEnd_def Let_def setDelete_def)
    show "activeByTrack (handleEnd s v a) =
        (if removeAll v (setStore s a) = [] then (activeByTrack s)(v_name v := None)
         else activeByTrack s)"
      by (simp add: handleEnd_def Let_def setDelete_def)
    show "onended (nodeStore (handleEnd s v a) j) =
        (if j = v_node v then NoHandler else onended (nodeStore s j))" for j
      by (simp add: handleEnd_def Let_def)
    show "nextNode (handleEnd s v a) = nextNode s"
      by (simp add: handleEnd_def Let_def)
    show "nextSet (handleEnd s v a) = nextSet s"
      by (simp add: handleEnd_def Let_def)
  qed
qed

lemma consistent_sourceEnded: "consistent s \<Longrightarrow> consistent (sourceEnded s i)"
  by (cases "onended (nodeStore s i)") (simp_all add: sourceEnded_def consistent_handleEnd)

lemma consistent_gain: "consistent s \<Longrightarrow> consistent (gainAutomation s i x)"
  by (erule consistent_cong) (simp_all add: gainAutomation_def)

lemma consistent_load: "consistent s \<Longrightarrow> consistent (loadBuffer s name)"
  by (erule consistent_cong) (simp_all add: loadBuffer_def)

lemma consistent_init: "consistent (init cfg None)"
  by (rule consistentI) (simp_all add: init_def blankNode_def)

text \<open>The registry part of a registration.\<close>

lemma consistent_add:
  assumes c: "consistent s"
    and fresh: "v_node v = nextNode s"
    and mem: "\<And>w. (w \<in> set members) = (w \<in> set (active s) \<and> v_name w = v_name v)"
    and dm: "distinct members"
    and un: "\<And>m. m \<noteq> v_name v \<Longrightarrow> activeByTrack s m \<noteq> Some a"
    and same: "\<And>b. activeByTrack s (v_name v) = Some b \<Longrightarrow> b = a"
    and lt: "a < nextSet s1" and ns: "nextSet s \<le> nextSet s1"
    and act0: "active s1 = setAdd v (active s)"
    and st0: "setStore s1 = (setStore s)(a := setAdd v members)"
    and mp: "activeByTrack s1 = (activeByTrack s)(v_name v := Some a)"
    and hd: "\<And>i. onended (nodeStore s1 i) =
                 (if i = nextNode s then HandleEnd v a else onended (nodeStore s i))"
    and nn: "nextNode s1 = Suc (nextNode s)"
  shows "consistent s1"
proof (rule consistentI)
  have nv: "v \<notin> set (active s)"
  proof
    assume "v \<in> set (active s)"
    from consistent_active[OF c this] have "v_node v < nextNode s" by (elim conjE)
    with fresh show False by simp
  qed
  have nm: "v \<notin> set members" using nv mem[of v] by simp
  have act: "active s1 = active s @ [v]" using nv by (simp add: act0 setAdd_def)
  have st: "setStore s1 = (setStore s)(a := members @ [v])" using nm by (simp add: st0 setAdd_def)
  show "distinct (active s1)"
    using consistent_distinct[OF c] nv by (simp add: act)
  show "setStore s1 b \<noteq> [] \<and> distinct (setStore s1 b) \<and> b < nextSet s1"
    if m: "activeByTrack s1 n = Some b" for n b
  proof (cases "n = v_name v")
    case True
    with m have "b = a" by (simp add: mp)
    with dm nm lt show ?thesis by (simp add: st)
  next
    case False
    with m have m0: "activeByTrack s n = Some b" by (simp add: mp)
    with un[OF False] have ba: "b \<noteq> a" by blast
    from consistent_set[OF c m0] ba ns show ?thesis by (simp add: st)
  qed
  show "(w \<in> set (setStore s1 b)) = (w \<in> set (active s1) \<and> v_name w = n)"
    if m: "activeByTrack s1 n = Some b" for n b w
  proof (cases "n = v_name v")
    case True
    with m have "b = a" by (simp add: mp)
    with True mem[of w] show ?thesis by (auto simp: st act)
  next
    case False
    with m have m0: "activeByTrack s n = Some b" by (simp add: mp)
    with un[OF False] have ba: "b \<noteq> a" by blast
    from consistent_mem[OF c m0, of w] ba False show ?thesis by (auto simp: st act)
  qed
  show "v_node w < nextNode s1
       \<and> (\<exists>b. activeByTrack s1 (v_name w) = Some b
               \<and> onended (nodeStore s1 (v_node w)) = HandleEnd w b)"
    if w: "w \<in> set (active s1)" for w
  proof (cases "w = v")
    case True
    then show ?thesis by (simp add: fresh nn mp hd)
  next
    case False
    with w have w0: "w \<in> set (active s)" by (simp add: act)
    from consistent_active[OF c w0] obtain b where b: "v_node w < nextNode s"
      "activeByTrack s (v_name w) = Some b" "onended (nodeStore s (v_node w)) = HandleEnd w b"
      by (elim conjE exE)
    have "activeByTrack s1 (v_name w) = Some b"
    proof (cases "v_name w = v_name v")
      case True
      with b(2) same have "b = a" by simp
      with True show ?thesis by (simp add: mp)
    next
      case False
      with b(2) show ?thesis by (simp add: mp)
    qed
    with b(1,3) show ?thesis by (simp add: hd nn)
  qed
  show "w \<in> set (active s1) \<and> v_node w = i"
    if h: "onended (nodeStore s1 i) = HandleEnd w b" for i w b
  proof (cases "i = nextNode s")
    case True
    with h have "HandleEnd v a = HandleEnd w b" by (simp add: hd)
    then have "v = w" by (rule handler.inject[THEN iffD1, THEN conjunct1])
    with True fresh show ?thesis by (simp add: act)
  next
    case False
    with h have "onended (nodeStore s i) = HandleEnd w b" by (simp add: hd)
    from consistent_handler[OF c this] show ?thesis by (simp add: act)
  qed
qed

lemma consistent_register:
  assumes c: "consistent s"
    and r1: "r = None \<Longrightarrow> activeByTrack s name = None"
    and r2: "\<And>b. r = Some b \<Longrightarrow>
               activeByTrack s name = Some b
               \<or> (activeByTrack s name = None \<and> setStore s b = [] \<and> b < nextSet s
                   \<and> (\<forall>m. activeByTrack s m \<noteq> Some b))"
  shows "consistent (snd (register s now name opts r p))"
proof -
  let ?v = "\<lparr> v_name = name, v_node = nextNode s, v_priority = p \<rparr>"
  let ?a = "case r of Some b \<Rightarrow> b | None \<Rightarrow> nextSet s"
  let ?members = "case r of Some b \<Rightarrow> setStore s b | None \<Rightarrow> []"
  let ?s1 = "snd (register s now name opts r p)"
  have none: "\<not> (w \<in> set (active s) \<and> v_name w = name)" if "activeByTrack s name = None" for w
  proof
    assume w: "w \<in> set (active s) \<and> v_name w = name"
    then have "w \<in> set (active s)" by simp
    from consistent_active[OF c this] obtain b where "activeByTrack s (v_name w) = Some b"
      by (elim conjE exE)
    with w that show False by simp
  qed
  have mem: "(w \<in> set ?members) = (w \<in> set (active s) \<and> v_name w = v_name ?v)" for w
  proof (cases r)
    case None
    with none[OF r1[OF None], of w] show ?thesis by simp
  next
    case (Some b)
    from r2[OF Some] show ?thesis
    proof
      assume "activeByTrack s name = Some b"
      from consistent_mem[OF c this, of w] Some show ?thesis by simp
    next
      assume "activeByTrack s name = None \<and> setStore s b = [] \<and> b < nextSet s
                   \<and> (\<forall>m. activeByTrack s m \<noteq> Some b)"
      with none[of w] Some show ?thesis by simp
    qed
  qed
  have dm: "distinct ?members"
  proof (cases r)
    case None
    then show ?thesis by simp
  next
    case (Some b)
    from r2[OF Some] show ?thesis
    proof
      assume "activeByTrack s name = Some b"
      from consistent_set[OF c this] Some show ?thesis by simp
    next
      assume "activeByTrack s name = None \<and> setStore s b = [] \<and> b < nextSet s
                   \<and> (\<forall>m. activeByTrack s m \<noteq> Some b)"
      with Some show ?thesis by simp
    qed
  qed
  have un: "activeByTrack s m \<noteq> Some ?a" if "m \<noteq> v_name ?v" for m
  proof
    assume m: "activeByTrack s m = Some ?a"
    from consistent_set[OF c m] have lt: "?a < nextSet s" by simp
    show False
    proof (cases r)
      case None
      with lt show False by simp
    next
      case (Some b)
      from r2[OF Some] show False
      proof
        assume "activeByTrack s name = Some b"
        with m Some have "m = name" using consistent_inj[OF c] by simp
        with that show False by simp
      next
        assume "activeByTrack s name = None \<and> setStore s b = [] \<and> b < nextSet s
                   \<and> (\<forall>m. activeByTrack s m \<noteq> Some b)"
        with m Some show False by simp
      qed
    qed
  qed
  have same: "b = ?a" if "activeByTrack s (v_name ?v) = Some b" for b
  proof (cases r)
    case None
    with r1 that show ?thesis by simp
  next
    case (Some b')
    with r2[OF Some] that show ?thesis by auto
  qed
  have lt: "?a < nextSet ?s1"
  proof (cases r)
    case None
    then show ?thesis by (simp add: register_def Let_def)
  next
    case (Some b)
    from r2[OF Some] have "b < nextSet s"
    proof
      assume "activeByTrack s name = Some b"
      from consistent_set[OF c this] show ?thesis by simp
    next
      assume "activeByTrack s name = None \<and> setStore s b = [] \<and> b < nextSet s
                   \<and> (\<forall>m. activeByTrack s m \<noteq> Some b)"
      then show ?thesis by simp
    qed
    with Some show ?thesis by (simp add: register_def Let_def)
  qed
  show ?thesis
  proof (rule consistent_add[OF c _ mem dm un same lt])
    show "v_node ?v = nextNode s" by simp
    show "nextSet s \<le> nextSet ?s1"
      by (simp add: register_def Let_def split: option.splits)
    show "active ?s1 = setAdd ?v (active s)"
      by (simp add: register_def Let_def)
    show "setStore ?s1 = (setStore s)(?a := setAdd ?v ?members)"
      by (simp add: register_def Let_def)
    show "activeByTrack ?s1 = (activeByTrack s)(v_name ?v := Some ?a)"
      by (simp add: register_def Let_def)
    show "onended (nodeStore ?s1 i) =
            (if i = nextNode s then HandleEnd ?v ?a else onended (nodeStore s i))" for i
      by (simp add: register_def Let_def)
    show "nextNode ?s1 = Suc (nextNode s)"
      by (simp add: register_def Let_def)
  qed
qed

lemma quietest_mem: "quietest sc xs m u = Some v \<Longrightarrow> v \<in> set xs \<or> u = Some v"
proof (induction xs arbitrary: m u)
  case Nil
  then show ?case by simp
next
  case (Cons x xs)
  show ?case
  proof (cases "case m of None \<Rightarrow> True | Some k \<Rightarrow> sc x < k")
    case True
    with Cons.prems have "quietest sc xs (Some (sc x)) (Some x) = Some v" by simp
    from Cons.IH[OF this] show ?thesis by auto
  next
    case False
    with Cons.prems have "quietest sc xs m u = Some v" by simp
    from Cons.IH[OF this] show ?thesis by auto
  qed
qed

lemma firstValue_mem: "firstValue xs = Some v \<Longrightarrow> v \<in> set xs"
  by (cases xs) auto

lemma trackVoices_active:
  assumes "consistent s" "v \<in> set (trackVoices s name)"
  shows "v \<in> set (active s)"
proof (cases "activeByTrack s name")
  case None
  with assms(2) show ?thesis by (simp add: trackVoices_def)
next
  case (Some a)
  with assms(2) have "v \<in> set (setStore s a)" by (simp add: trackVoices_def)
  with consistent_mem[OF assms(1) Some, of v] show ?thesis by simp
qed

lemma pickVictim_active:
  assumes "consistent s" "pickVictim s strategy (trackVoices s name) = Some v"
  shows "v \<in> set (active s)"
proof (cases "strategy = Some ''stealOldest''")
  case True
  show ?thesis
  proof (cases "firstValue (trackVoices s name)")
    case None
    with assms(2) True have "firstValue (active s) = Some v" by (simp add: pickVictim_def)
    then show ?thesis by (rule firstValue_mem)
  next
    case (Some w)
    with assms(2) True have "firstValue (trackVoices s name) = Some v" by (simp add: pickVictim_def)
    then have "v \<in> set (trackVoices s name)" by (rule firstValue_mem)
    with assms(1) show ?thesis by (rule trackVoices_active)
  qed
next
  case False
  with assms(2) have "quietest (score s) (active s) None None = Some v"
    by (simp add: pickVictim_def split: if_splits)
  from quietest_mem[OF this] show ?thesis by simp
qed

lemma consistent_play:
  assumes c: "consistent s"
  shows "consistent (snd (play s now name opts))"
proof -
  let ?pol = "getPolicy s name" and ?ts = "trackVoices s name" and ?pr = "resolvedPriority s name opts"
  let ?r = "activeByTrack s name"
  consider (a) "ensureCapacity s now ?pol ?ts ?pr = (True, s)"
    | (b) "ensureCapacity s now ?pol ?ts ?pr = (False, s)"
    | (c) victim where "pickVictim s (stealStrategy ?pol) ?ts = Some victim"
        "ensureCapacity s now ?pol ?ts ?pr = (True, evict s now ?pol victim)"
    using ensureCapacity_cases[of s now ?pol ?ts ?pr] by blast
  then show ?thesis
  proof cases
    case a
    have "consistent (snd (register s now name opts ?r ?pr))"
      by (rule consistent_register[OF c]) simp_all
    with a c show ?thesis by (simp add: play_def split_def)
  next
    case b
    with c show ?thesis by (simp add: play_def)
  next
    case c1: c
    let ?s1 = "evict s now ?pol victim"
    have v: "victim \<in> set (active s)" using c c1(1) by (rule pickVictim_active)
    from consistent_active[OF c v] obtain a where a: "activeByTrack s (v_name victim) = Some a"
      by (elim conjE exE)
    have c1s: "consistent ?s1" using c v by (rule consistent_evict)
    have mp: "activeByTrack (evict s now pol victim) = (if removeAll victim (setStore s a) = []
                then (activeByTrack s)(v_name victim := None) else activeByTrack s)" for pol
      by (simp add: evict_def Let_def setDelete_def a)
    have st: "setStore (evict s now pol victim)
                = (setStore s)(a := removeAll victim (setStore s a))" for pol
      by (simp add: evict_def Let_def setDelete_def a)
    have ns: "nextSet (evict s now pol victim) = nextSet s" for pol
      by (simp add: evict_def Let_def)
    have "consistent (snd (register ?s1 now name opts ?r ?pr))"
    proof (rule consistent_register[OF c1s])
      assume "?r = None"
      then show "activeByTrack ?s1 name = None" by (simp add: mp)
    next
      fix b assume r: "?r = Some b"
      show "activeByTrack ?s1 name = Some b
               \<or> (activeByTrack ?s1 name = None \<and> setStore ?s1 b = [] \<and> b < nextSet ?s1
                   \<and> (\<forall>m. activeByTrack ?s1 m \<noteq> Some b))"
      proof (cases "name = v_name victim \<and> removeAll victim (setStore s a) = []")
        case False
        with r show ?thesis by (auto simp: mp)
      next
        case True
        with r a have ba: "b = a" by simp
        have 1: "activeByTrack ?s1 name = None" using True by (simp add: mp)
        have 2: "setStore ?s1 b = []" using True ba by (simp add: st)
        have 3: "b < nextSet ?s1" using consistent_set[OF c r] by (simp add: ns)
        have 4: "activeByTrack ?s1 m \<noteq> Some b" for m
        proof
          assume m: "activeByTrack ?s1 m = Some b"
          then have "activeByTrack s m = Some b" by (auto simp: mp split: if_splits)
          with r have "m = name" using consistent_inj[OF c] by blast
          with m 1 show False by simp
        qed
        from 1 2 3 4 show ?thesis by blast
      qed
    qed
    with c1(2) c show ?thesis by (simp add: play_def split_def)
  qed
qed

text \<open>
  With no voice active no node carries a handler \<^verbatim>\<open>handleEnd\<close>, so a fresh registry is
  consistent with the store it inherits.
\<close>

lemma consistent_reinit_idle:
  assumes c: "consistent s" and e: "active s = []"
  shows "consistent (init cfg (Some s))"
proof (rule consistentI)
  show "distinct (active (init cfg (Some s)))" by (simp add: init_def)
next
  fix n a assume "activeByTrack (init cfg (Some s)) n = Some a"
  then show "setStore (init cfg (Some s)) a \<noteq> [] \<and> distinct (setStore (init cfg (Some s)) a)
               \<and> a < nextSet (init cfg (Some s))"
    by (simp add: init_def)
next
  fix n a w assume "activeByTrack (init cfg (Some s)) n = Some a"
  then show "(w \<in> set (setStore (init cfg (Some s)) a))
               = (w \<in> set (active (init cfg (Some s))) \<and> v_name w = n)"
    by (simp add: init_def)
next
  fix v assume "v \<in> set (active (init cfg (Some s)))"
  then show "v_node v < nextNode (init cfg (Some s))
       \<and> (\<exists>a. activeByTrack (init cfg (Some s)) (v_name v) = Some a
               \<and> onended (nodeStore (init cfg (Some s)) (v_node v)) = HandleEnd v a)"
    by (simp add: init_def)
next
  fix i v a assume "onended (nodeStore (init cfg (Some s)) i) = HandleEnd v a"
  then have "onended (nodeStore s i) = HandleEnd v a" by (simp add: init_def)
  from consistent_handler[OF c this] e
  show "v \<in> set (active (init cfg (Some s))) \<and> v_node v = i" by simp
qed

text \<open>The state between the eviction inside \<^verbatim>\<open>_ensureCapacity\<close> and the registration.\<close>

lemma consistent_ensureCapacity:
  assumes c: "consistent s"
  shows "consistent (snd (ensureCapacity s now pol (trackVoices s name) pr))"
proof -
  consider (a) "ensureCapacity s now pol (trackVoices s name) pr = (True, s)"
    | (b) "ensureCapacity s now pol (trackVoices s name) pr = (False, s)"
    | (e) victim where "pickVictim s (stealStrategy pol) (trackVoices s name) = Some victim"
        "ensureCapacity s now pol (trackVoices s name) pr = (True, evict s now pol victim)"
    using ensureCapacity_cases[of s now pol "trackVoices s name" pr] by blast
  then show ?thesis
  proof cases
    case a
    with c show ?thesis by simp
  next
    case b
    with c show ?thesis by simp
  next
    case e
    have "victim \<in> set (active s)" using c e(1) by (rule pickVictim_active)
    with c have "consistent (evict s now pol victim)" by (rule consistent_evict)
    with e(2) show ?thesis by simp
  qed
qed

lemma reachableTracked_consistent: "reachableTracked s \<Longrightarrow> consistent s"
  by (induction rule: reachableTracked.induct)
     (simp_all add: consistent_init consistent_reinit_idle consistent_play consistent_sourceEnded
        consistent_gain consistent_load)

lemma consistent_dom:
  assumes "consistent s"
  shows "dom (activeByTrack s) = v_name ` set (active s)"
proof (intro set_eqI iffI)
  fix n assume "n \<in> dom (activeByTrack s)"
  then obtain a where a: "activeByTrack s n = Some a" by auto
  from consistent_set[OF assms a] obtain w where "w \<in> set (setStore s a)"
    by (cases "setStore s a") auto
  with consistent_mem[OF assms a, of w] show "n \<in> v_name ` set (active s)" by auto
next
  fix n assume "n \<in> v_name ` set (active s)"
  then obtain w where w: "w \<in> set (active s)" "v_name w = n" by auto
  from consistent_active[OF assms w(1)] obtain a where "activeByTrack s (v_name w) = Some a"
    by (elim conjE exE)
  with w(2) show "n \<in> dom (activeByTrack s)" by auto
qed

lemma consistent_track_card:
  assumes "consistent s" "n \<in> dom (activeByTrack s)"
  shows "length (trackVoices s n) = card {w \<in> set (active s). v_name w = n}"
proof -
  from assms(2) obtain a where a: "activeByTrack s n = Some a" by auto
  have "set (setStore s a) = {w \<in> set (active s). v_name w = n}"
    using consistent_mem[OF assms(1) a] by blast
  moreover have "distinct (setStore s a)" using consistent_set[OF assms(1) a] by simp
  ultimately show ?thesis using a by (simp add: trackVoices_def distinct_card[symmetric])
qed

lemma consistent_count:
  assumes "consistent s"
  shows "length (active s) = trackTotal s"
proof -
  have d: "dom (activeByTrack s) = v_name ` set (active s)" using assms by (rule consistent_dom)
  have "trackTotal s = (\<Sum>n \<in> v_name ` set (active s). card {w \<in> set (active s). v_name w = n})"
    unfolding trackTotal_def using consistent_track_card[OF assms]
    by (simp add: d)
  also have "\<dots> = (\<Sum>n \<in> v_name ` set (active s). \<Sum>w \<in> {w \<in> set (active s). v_name w = n}. 1)"
    by simp
  also have "\<dots> = (\<Sum>w \<in> set (active s). 1)"
    by (rule sum.group) simp_all
  also have "\<dots> = length (active s)"
    using consistent_distinct[OF assms] by (simp add: distinct_card)
  finally show ?thesis by simp
qed

lemma reported_total:
  assumes "[] \<notin> dom (activeByTrack s)"
  shows "reportedTotal s = trackTotal s"
  unfolding reportedTotal_def trackTotal_def
proof (rule sum.cong)
  fix n assume "n \<in> dom (activeByTrack s)"
  with assms have "n \<noteq> []" by auto
  then show "getActiveCount s (Some n) = length (trackVoices s n)"
    by (simp add: getActiveCount_def)
qed simp

text \<open>
  In every execution in which \<^verbatim>\<open>init\<close> is run again only while no voice is active, the
  size of the global set is the sum of the sizes of the per-track sets, and the registered
  tracks are the tracks of the active voices: after \<^verbatim>\<open>init\<close>, after every call of
  \<^verbatim>\<open>play\<close>, after the eviction inside \<^verbatim>\<open>_ensureCapacity\<close> and before the registration
  that follows it, and after every event of the platform. When no track is named by the
  empty string, \<^verbatim>\<open>getActiveCount()\<close> is the sum of \<^verbatim>\<open>getActiveCount(t)\<close> over the
  registered tracks.
\<close>

theorem registry_counts_agree:
  assumes "reachableTracked s"
  shows "length (active s) = trackTotal s
    \<and> dom (activeByTrack s) = v_name ` set (active s)
    \<and> ([] \<notin> dom (activeByTrack s) \<longrightarrow> getActiveCount s None = reportedTotal s)
    \<and> length (active (snd (ensureCapacity s now pol (trackVoices s name) pr)))
        = trackTotal (snd (ensureCapacity s now pol (trackVoices s name) pr))"
proof -
  have c: "consistent s" using assms by (rule reachableTracked_consistent)
  have 1: "length (active s) = trackTotal s" using c by (rule consistent_count)
  have 2: "dom (activeByTrack s) = v_name ` set (active s)" using c by (rule consistent_dom)
  have 3: "getActiveCount s None = reportedTotal s" if "[] \<notin> dom (activeByTrack s)"
    using reported_total[OF that] 1 by (simp add: getActiveCount_def)
  have "consistent (snd (ensureCapacity s now pol (trackVoices s name) pr))"
    using c by (rule consistent_ensureCapacity)
  then have 4: "length (active (snd (ensureCapacity s now pol (trackVoices s name) pr)))
        = trackTotal (snd (ensureCapacity s now pol (trackVoices s name) pr))"
    by (rule consistent_count)
  from 1 2 3 4 show ?thesis by blast
qed

theorem registry_counts_agree_witness:
  "reachableTracked shared
   \<and> getActiveCount shared None = 2
   \<and> getActiveCount shared (Some ''a'') = 1
   \<and> getActiveCount shared (Some ''b'') = 1
   \<and> trackTotal shared = 2
   \<and> reportedTotal shared = 2"
proof -
  have r: "reachableTracked shared"
    unfolding shared_def by (intro reachableTracked.intros(1,3,4,5,6))
  have a: "length (active shared) = 2"
    by (simp add: example_defs unfold_all)
  have d: "dom (activeByTrack shared) = {''a'', ''b''}"
    by (auto simp: example_defs unfold_all split: if_splits)
  have n: "[] \<notin> dom (activeByTrack shared)"
    by (simp add: d)
  have g: "getActiveCount shared (Some ''a'') = 1 \<and> getActiveCount shared (Some ''b'') = 1"
    by (simp add: example_defs unfold_all getActiveCount_def)
  show ?thesis
    using registry_counts_agree[OF r] r a n g
    by (simp add: getActiveCount_def)
qed

text \<open>
  Two consequences of the defect shown below. After the stale handler has run, track \<^verbatim>\<open>a\<close>
  looks empty, and a further call is admitted although the track is at its limit and the
  strategy is \<^verbatim>\<open>ignore\<close>.
\<close>

lemma stale_callback_bypasses_limit:
  "reachable bypassed
   \<and> maxVoices (getPolicy bypassed ''a'') = Some 1
   \<and> stealStrategy (getPolicy bypassed ''a'') = Some ''ignore''
   \<and> active bypassed = [\<lparr> v_name = ''a'', v_node = 1, v_priority = Some 0 \<rparr>,
                        \<lparr> v_name = ''a'', v_node = 2, v_priority = Some 0 \<rparr>]"
proof -
  have "reachable bypassed"
    unfolding bypassed_def by (intro reachable.intros)
  then show ?thesis by (simp add: example_defs unfold_all)
qed

text \<open>
  \<^verbatim>\<open>getActiveCount('')\<close> takes the empty name for a missing argument and returns the global
  count: with a track of that name the per-track counts add up to more than the total.
\<close>

lemma empty_name_breaks_reported:
  "reachableTracked unnamed
   \<and> getActiveCount unnamed None = 2
   \<and> getActiveCount unnamed (Some []) = 2
   \<and> getActiveCount unnamed (Some ''a'') = 1
   \<and> trackTotal unnamed = 2
   \<and> reportedTotal unnamed = 3"
proof -
  have r: "reachableTracked unnamed"
    unfolding unnamed_def by (intro reachableTracked.intros(1,3))
  have a: "length (active unnamed) = 2"
    by (simp add: example_defs unfold_all)
  have d: "dom (activeByTrack unnamed) = {[], ''a''}"
    by (auto simp: example_defs unfold_all split: if_splits)
  have g: "getActiveCount unnamed None = 2" "getActiveCount unnamed (Some []) = 2"
    "getActiveCount unnamed (Some ''a'') = 1"
    by (simp_all add: example_defs unfold_all getActiveCount_def)
  have t: "trackTotal unnamed = 2" using registry_counts_agree[OF r] a by simp
  have "reportedTotal unnamed = 3"
    unfolding reportedTotal_def d using g by simp
  with r g t show ?thesis by simp
qed

text \<open>
  C2. The size of the global set should equal the sum of the sizes of the per-track sets
  after every step, and does so in the executions above. It fails once \<^verbatim>\<open>init\<close> has run
  again while a voice was playing: the handler \<^verbatim>\<open>handleEnd\<close> of that voice still holds the
  old set object, finds it empty after removing its voice, and deletes the entry of the
  track from the new \<^verbatim>\<open>activeByTrack\<close>, which registers a different set. In the state
  \<open>stale\<close> one voice is active and no track is registered: \<^verbatim>\<open>getActiveCount()\<close> is 1 and
  the counts of the tracks add up to 0.
\<close>

theorem stale_callback_breaks_counts:
  "reachable stale
   \<and> getActiveCount stale None = 1
   \<and> getActiveCount stale (Some ''a'') = 0
   \<and> length (active stale) = 1
   \<and> trackTotal stale = 0
   \<and> reportedTotal stale = 0
   \<and> length (active stale) \<noteq> trackTotal stale"
proof -
  have r: "reachable stale"
    unfolding stale_def by (intro reachable.intros)
  have a: "active stale = [\<lparr> v_name = ''a'', v_node = 1, v_priority = Some 0 \<rparr>]"
    by (simp add: example_defs unfold_all)
  have m: "activeByTrack stale = (\<lambda>_. None)"
    by (simp add: example_defs unfold_all)
  have t: "trackTotal stale = 0" "reportedTotal stale = 0"
    by (simp_all add: trackTotal_def reportedTotal_def m)
  have g: "getActiveCount stale None = 1" "getActiveCount stale (Some ''a'') = 0"
    by (simp_all add: getActiveCount_def a trackVoices_def m)
  from r a t g show ?thesis by simp
qed

end
